theory Spec2Isabelle
  imports Complex_Main "HOL-Library.Char_ord" "HOL-Library.List_Lexorder"
begin

section \<open>caption\_stack: merging screenshots into one image with stacked subtitle bands\<close>

text \<open>
  A shallow embedding of \<^verbatim>\<open>src/caption_stack.py\<close>, function
  \<^verbatim>\<open>merge_screenshots_with_subtitles\<close>.  The function lists a folder, keeps the
  file names that end in \<^verbatim>\<open>.png\<close>, sorts them, opens every image, rescales the
  images after the first one to the first image's width, and writes a canvas that holds
  the whole first image followed by the bottom band of every later image.

  What comes from Python and Pillow rather than from the repository is written out as
  definitions of its own: Python's exceptions are values of \<open>py_error\<close>, Python's float
  arithmetic is IEEE binary64 with round-to-nearest-even, and Pillow's \<^verbatim>\<open>new\<close>,
  \<^verbatim>\<open>crop\<close>, \<^verbatim>\<open>paste\<close> and \<^verbatim>\<open>resize\<close> are functions on a record of
  width, height and pixels.  The Lanczos filter, whose output pixels are floating-point
  convolutions inside Pillow, is a parameter \<open>lanczos\<close> of the model: only the size of
  the resampled image is fixed here.
\<close>

subsection \<open>Exceptions and return values\<close>

datatype py_error =
    ValueError_two_png_required  \<comment> \<open>line 24: \<^verbatim>\<open>raise ValueError(...)\<close>\<close>
  | FileNotFoundError            \<comment> \<open>\<^verbatim>\<open>Image.open\<close>: no such file\<close>
  | UnidentifiedImageError       \<comment> \<open>\<^verbatim>\<open>Image.open\<close>: the file is not an image\<close>
  | ZeroDivisionError            \<comment> \<open>Python \<^verbatim>\<open>/\<close> with a zero divisor\<close>
  | OverflowError                \<comment> \<open>Python float overflow, \<^verbatim>\<open>int(inf)\<close>\<close>
  | ValueError_resize_size       \<comment> \<open>Pillow \<^verbatim>\<open>resize\<close>: height and width must be > 0\<close>
  | ValueError_new_size          \<comment> \<open>Pillow \<^verbatim>\<open>Image.new\<close>: width and height must be >= 0\<close>
  | ValueError_crop_box          \<comment> \<open>Pillow \<^verbatim>\<open>crop\<close>: lower < upper or right < left\<close>

subsection \<open>Python numbers\<close>

text \<open>
  Python integers are unbounded (\<open>int\<close>).  A Python float is an IEEE binary64 value; a
  finite one is kept as the rational number it denotes.  \<open>round_double\<close> rounds a
  rational to the nearest binary64 value, ties to the even significand: the quantum is
  \<open>2 ^ e\<close> with \<open>e = max (-1074) (\<lfloor>log\<^sub>2 |q|\<rfloor> - 52)\<close>, and a rounded magnitude of
  \<open>2 ^ 1024\<close> or more is an infinity.  The sign of a zero is not kept: \<^verbatim>\<open>int\<close> reads
  both zeros as 0.
\<close>

definition two_pow :: "int \<Rightarrow> rat" where
  "two_pow e = (if 0 \<le> e then 2 ^ nat e else 1 / 2 ^ nat (- e))"

function bit_length :: "int \<Rightarrow> int" where
  "bit_length k = (if k \<le> 0 then 0 else 1 + bit_length (k div 2))"
  by pat_completeness auto
termination
  by (relation "measure nat") auto

declare bit_length.simps [simp del]

definition floor_log2 :: "rat \<Rightarrow> int" where
  "floor_log2 q =
     (let a = fst (quotient_of q); b = snd (quotient_of q);
          d = bit_length a - bit_length b
      in if two_pow d \<le> q then d else d - 1)"

definition round_half_even :: "rat \<Rightarrow> int" where
  "round_half_even x =
     (let f = \<lfloor>x\<rfloor>; d = x - of_int f
      in if d < 1 / 2 then f
         else if 1 / 2 < d then f + 1
         else if even f then f else f + 1)"

datatype py_float = Finite rat | Infinity

definition round_double :: "rat \<Rightarrow> py_float" where
  "round_double q =
     (if q = 0 then Finite 0
      else let a = \<bar>q\<bar>;
               e = max (- 1074) (floor_log2 a - 52);
               m = round_half_even (a / two_pow e);
               v = of_int m * two_pow e
           in if 2 ^ 1024 \<le> v then Infinity else Finite (sgn q * v))"

text \<open>\<^verbatim>\<open>float(a)\<close> for an integer: correctly rounded, OverflowError when too large.\<close>

definition float_of_int :: "int \<Rightarrow> py_error + rat" where
  "float_of_int a =
     (case round_double (of_int a) of
        Infinity \<Rightarrow> Inl OverflowError
      | Finite v \<Rightarrow> Inr v)"

text \<open>
  \<^verbatim>\<open>a / b\<close> on two integers: CPython rounds the exact quotient once and raises when
  the divisor is zero or the quotient is too large for a float.
\<close>

definition int_truediv :: "int \<Rightarrow> int \<Rightarrow> py_error + rat" where
  "int_truediv a b =
     (if b = 0 then Inl ZeroDivisionError
      else case round_double (of_int a / of_int b) of
             Infinity \<Rightarrow> Inl OverflowError
           | Finite v \<Rightarrow> Inr v)"

text \<open>\<^verbatim>\<open>x / y\<close> and \<^verbatim>\<open>x * y\<close> on two finite floats.\<close>

definition float_truediv :: "rat \<Rightarrow> rat \<Rightarrow> py_error + py_float" where
  "float_truediv x y = (if y = 0 then Inl ZeroDivisionError else Inr (round_double (x / y)))"

definition float_mul :: "rat \<Rightarrow> rat \<Rightarrow> py_float" where
  "float_mul x y = round_double (x * y)"

text \<open>\<^verbatim>\<open>int(x)\<close> on a float: truncation toward zero, OverflowError on an infinity.\<close>

definition py_int :: "py_float \<Rightarrow> py_error + int" where
  "py_int x =
     (case x of
        Infinity \<Rightarrow> Inl OverflowError
      | Finite v \<Rightarrow> Inr (if 0 \<le> v then \<lfloor>v\<rfloor> else \<lceil>v\<rceil>))"

text \<open>
  The argument \<^verbatim>\<open>subtitle_ratio\<close> is an integer (the default 6) or a finite float
  (3.5 in the script's own call); \<open>PyFloat m e\<close> is the float \<open>m * 2 ^ e\<close>.
\<close>

datatype py_num = PyInt int | PyFloat int int

definition float_value :: "int \<Rightarrow> int \<Rightarrow> rat" where
  "float_value m e = of_int m * two_pow e"




text \<open>\<^verbatim>\<open>h / subtitle_ratio\<close> with an integer \<open>h\<close>: an integer meets a float as a float.\<close>

fun int_truediv_num :: "int \<Rightarrow> py_num \<Rightarrow> py_error + py_float" where
  "int_truediv_num h (PyInt b) =
     (case int_truediv h b of Inl err \<Rightarrow> Inl err | Inr v \<Rightarrow> Inr (Finite v))"
| "int_truediv_num h (PyFloat m e) =
     (case float_of_int h of
        Inl err \<Rightarrow> Inl err
      | Inr x \<Rightarrow> float_truediv x (float_value m e))"

text \<open>\<^verbatim>\<open>h * ratio\<close> with an integer \<open>h\<close> and a float \<open>ratio\<close>.\<close>

definition int_mul_float :: "int \<Rightarrow> rat \<Rightarrow> py_error + py_float" where
  "int_mul_float h ratio =
     (case float_of_int h of
        Inl err \<Rightarrow> Inl err
      | Inr x \<Rightarrow> Inr (float_mul x ratio))"

subsection \<open>File names\<close>

text \<open>
  A file name is a string of bytes (UTF-8); comparing two names byte by byte orders them
  as Python orders the code points of two \<^verbatim>\<open>str\<close> values.  \<^verbatim>\<open>str.lower\<close>
  is followed on the ASCII letters, the only ones that can lower to a byte of
  \<^verbatim>\<open>.png\<close>.
\<close>

definition lower_char :: "char \<Rightarrow> char" where
  "lower_char c =
     (if CHR ''A'' \<le> c \<and> c \<le> CHR ''Z'' then char_of (of_char c + (32 :: nat)) else c)"

definition str_lower :: "string \<Rightarrow> string" where
  "str_lower s = map lower_char s"

definition endswith :: "string \<Rightarrow> string \<Rightarrow> bool" where
  "endswith s suffix \<longleftrightarrow>
     length suffix \<le> length s \<and> drop (length s - length suffix) s = suffix"

subsection \<open>Images and the input folder\<close>

type_synonym rgb = "nat \<times> nat \<times> nat"

definition white :: rgb where
  "white = (255, 255, 255)"

definition zero_pixel :: rgb where
  "zero_pixel = (0, 0, 0)"

text \<open>
  A Pillow image: \<^verbatim>\<open>size[0]\<close>, \<^verbatim>\<open>size[1]\<close> and the pixel at column \<open>x\<close>, row
  \<open>y\<close>.  Pixels are read as the RGB values that \<^verbatim>\<open>paste\<close> writes into the RGB
  canvas.
\<close>

record image =
  width :: nat
  height :: nat
  pixel :: "int \<Rightarrow> int \<Rightarrow> rgb"

text \<open>
  An entry of the input folder: the name \<^verbatim>\<open>os.listdir\<close> reports, a creation time
  (metadata that the function never reads) and what \<^verbatim>\<open>Image.open\<close> finds in the
  file: an image, or nothing that decodes.  A folder is the list of its entries in the
  order in which \<^verbatim>\<open>os.listdir\<close> happens to report them.
\<close>

record fs_entry =
  fname :: string
  ctime :: nat
  content :: "image option"

definition os_listdir :: "fs_entry list \<Rightarrow> string list" where
  "os_listdir input_folder = map fname input_folder"

definition Image_open :: "fs_entry list \<Rightarrow> string \<Rightarrow> py_error + image" where
  "Image_open input_folder path =
     (case find (\<lambda>entry. fname entry = path) input_folder of
        None \<Rightarrow> Inl FileNotFoundError
      | Some entry \<Rightarrow>
          (case content entry of
             None \<Rightarrow> Inl UnidentifiedImageError
           | Some img \<Rightarrow> Inr img))"

subsection \<open>Pillow operations\<close>

text \<open>\<^verbatim>\<open>Image.new('RGB', size, 'white')\<close>.\<close>

definition Image_new :: "int \<times> int \<Rightarrow> py_error + image" where
  "Image_new new_size =
     (if fst new_size < 0 \<or> snd new_size < 0 then Inl ValueError_new_size
      else Inr \<lparr>width = nat (fst new_size), height = nat (snd new_size),
                pixel = (\<lambda>x y. white)\<rparr>)"

text \<open>
  \<^verbatim>\<open>img.resize(size, Image.Resampling.LANCZOS)\<close>: a copy when the size is the
  image's own, an error when a side is below 1, else an image of the new size whose
  pixels the filter \<open>lanczos\<close> computes.
\<close>

definition resize ::
  "(image \<Rightarrow> nat \<times> nat \<Rightarrow> int \<Rightarrow> int \<Rightarrow> rgb) \<Rightarrow> image \<Rightarrow> int \<times> int \<Rightarrow> py_error + image" where
  "resize lanczos img new_size =
     (if (int (width img), int (height img)) = new_size then Inr img
      else if fst new_size < 1 \<or> snd new_size < 1 then Inl ValueError_resize_size
      else Inr \<lparr>width = nat (fst new_size), height = nat (snd new_size),
                pixel = lanczos img (nat (fst new_size), nat (snd new_size))\<rparr>)"

text \<open>
  \<^verbatim>\<open>img.crop((left, upper, right, lower))\<close>: the result has the size of the box; a
  position of the box outside the image holds the zero pixel.
\<close>

definition crop :: "image \<Rightarrow> int \<times> int \<times> int \<times> int \<Rightarrow> py_error + image" where
  "crop img box =
     (case box of (left, upper, right, lower) \<Rightarrow>
        if right < left \<or> lower < upper then Inl ValueError_crop_box
        else Inr \<lparr>width = nat (right - left), height = nat (lower - upper),
                  pixel = (\<lambda>x y.
                    if 0 \<le> x + left \<and> x + left < int (width img) \<and>
                       0 \<le> y + upper \<and> y + upper < int (height img)
                    then pixel img (x + left) (y + upper)
                    else zero_pixel)\<rparr>)"

text \<open>
  \<^verbatim>\<open>canvas.paste(img, (x0, y0))\<close>: the pixels of \<open>img\<close> replace those of the canvas
  in the box of the size of \<open>img\<close> at \<open>(x0, y0)\<close>, clipped to the canvas.
\<close>

definition paste :: "image \<Rightarrow> image \<Rightarrow> int \<times> int \<Rightarrow> image" where
  "paste canvas img offset =
     canvas\<lparr>pixel := (\<lambda>x y.
       if 0 \<le> x \<and> x < int (width canvas) \<and> 0 \<le> y \<and> y < int (height canvas) \<and>
          fst offset \<le> x \<and> x < fst offset + int (width img) \<and>
          snd offset \<le> y \<and> y < snd offset + int (height img)
       then pixel img (x - fst offset) (y - snd offset)
       else pixel canvas x y)\<rparr>"

subsection \<open>The function \<^verbatim>\<open>merge_screenshots_with_subtitles\<close>\<close>

text \<open>Lines 20 and 21: the names ending in \<^verbatim>\<open>.png\<close>, sorted.\<close>

definition image_files :: "fs_entry list \<Rightarrow> string list" where
  "image_files input_folder =
     sort [f \<leftarrow> os_listdir input_folder. endswith (str_lower f) ''.png'']"

text \<open>Line 27: every file is opened, in the sorted order.\<close>

fun open_images :: "fs_entry list \<Rightarrow> string list \<Rightarrow> py_error + image list" where
  "open_images input_folder [] = Inr []"
| "open_images input_folder (path # paths) =
     (case Image_open input_folder path of
        Inl err \<Rightarrow> Inl err
      | Inr img \<Rightarrow>
          (case open_images input_folder paths of
             Inl err \<Rightarrow> Inl err
           | Inr imgs \<Rightarrow> Inr (img # imgs)))"

text \<open>
  Lines 34 to 43, the loop over \<^verbatim>\<open>images[1:]\<close>; \<open>resized_images\<close> is the list the
  loop appends to.
\<close>

fun resize_loop ::
  "(image \<Rightarrow> nat \<times> nat \<Rightarrow> int \<Rightarrow> int \<Rightarrow> rgb) \<Rightarrow> nat \<Rightarrow> image list \<Rightarrow> image list
     \<Rightarrow> py_error + image list" where
  "resize_loop lanczos target_width resized_images [] = Inr resized_images"
| "resize_loop lanczos target_width resized_images (img # rest) =
     (if width img \<noteq> target_width then
        (case int_truediv (int target_width) (int (width img)) of
           Inl err \<Rightarrow> Inl err
         | Inr ratio \<Rightarrow>
             (case int_mul_float (int (height img)) ratio of
                Inl err \<Rightarrow> Inl err
              | Inr scaled \<Rightarrow>
                  (case py_int scaled of
                     Inl err \<Rightarrow> Inl err
                   | Inr new_height \<Rightarrow>
                       (case resize lanczos img (int target_width, new_height) of
                          Inl err \<Rightarrow> Inl err
                        | Inr resized_img \<Rightarrow>
                            resize_loop lanczos target_width
                              (resized_images @ [resized_img]) rest))))
      else resize_loop lanczos target_width (resized_images @ [img]) rest)"

text \<open>Lines 30 to 43: the first image sets the width and is kept as it is.\<close>

definition resize_to_first_width ::
  "(image \<Rightarrow> nat \<times> nat \<Rightarrow> int \<Rightarrow> int \<Rightarrow> rgb) \<Rightarrow> image list \<Rightarrow> py_error + image list" where
  "resize_to_first_width lanczos images =
     (let target_width = width (images ! 0)
      in resize_loop lanczos target_width [images ! 0] (tl images))"

text \<open>Line 46: \<^verbatim>\<open>int(resized_images[0].size[1] / subtitle_ratio)\<close>.\<close>

definition subtitle_height_of :: "image list \<Rightarrow> py_num \<Rightarrow> py_error + int" where
  "subtitle_height_of resized_images subtitle_ratio =
     (case int_truediv_num (int (height (resized_images ! 0))) subtitle_ratio of
        Inl err \<Rightarrow> Inl err
      | Inr q \<Rightarrow> py_int q)"

text \<open>
  Lines 59 to 72, the loop over \<^verbatim>\<open>enumerate(resized_images[1:], 1)\<close>; \<open>new_image\<close>
  is the canvas the loop pastes into, \<open>i\<close> the running index.
\<close>

fun paste_subtitles ::
  "image list \<Rightarrow> int \<Rightarrow> nat \<Rightarrow> image \<Rightarrow> int \<Rightarrow> image list \<Rightarrow> py_error + image" where
  "paste_subtitles resized_images subtitle_height target_width new_image i [] = Inr new_image"
| "paste_subtitles resized_images subtitle_height target_width new_image i (img # rest) =
     (let y_position = int (height (resized_images ! 0)) + subtitle_height * (i - 1)
      in case crop img (0, int (height img) - subtitle_height,
                        int target_width, int (height img)) of
           Inl err \<Rightarrow> Inl err
         | Inr subtitle \<Rightarrow>
             paste_subtitles resized_images subtitle_height target_width
               (paste new_image subtitle (0, y_position)) (i + 1) rest)"

text \<open>Lines 50 to 72: the canvas, the first image, then the bands.\<close>

definition compose_canvas :: "image list \<Rightarrow> nat \<Rightarrow> int \<Rightarrow> py_error + image" where
  "compose_canvas resized_images target_width subtitle_height =
     (let total_height = int (height (resized_images ! 0))
                         + subtitle_height * (int (length resized_images) - 1)
      in case Image_new (int target_width, total_height) of
           Inl err \<Rightarrow> Inl err
         | Inr new_image \<Rightarrow>
             paste_subtitles resized_images subtitle_height target_width
               (paste new_image (resized_images ! 0) (0, 0)) 1 (tl resized_images))"

text \<open>
  What a call leaves behind: the exception it raised or the value it returned, and the
  files it wrote.  The function has no \<^verbatim>\<open>return\<close> statement, so the value of a
  call that ends normally is \<^verbatim>\<open>None\<close>.  The four \<^verbatim>\<open>print\<close> lines after the
  save are not followed.
\<close>

datatype py_value = PyNone | PyImage image

record outcome =
  result :: "py_error + py_value"
  written :: "(string \<times> image) list"

definition merge_screenshots_with_subtitles ::
  "(image \<Rightarrow> nat \<times> nat \<Rightarrow> int \<Rightarrow> int \<Rightarrow> rgb) \<Rightarrow> fs_entry list \<Rightarrow> string \<Rightarrow> py_num \<Rightarrow> outcome" where
  "merge_screenshots_with_subtitles lanczos input_folder output_path subtitle_ratio =
     (if length (image_files input_folder) < 2
      then \<lparr>result = Inl ValueError_two_png_required, written = []\<rparr>
      else
        (case open_images input_folder (image_files input_folder) of
           Inl err \<Rightarrow> \<lparr>result = Inl err, written = []\<rparr>
         | Inr images \<Rightarrow>
        (case resize_to_first_width lanczos images of
           Inl err \<Rightarrow> \<lparr>result = Inl err, written = []\<rparr>
         | Inr resized_images \<Rightarrow>
        (case subtitle_height_of resized_images subtitle_ratio of
           Inl err \<Rightarrow> \<lparr>result = Inl err, written = []\<rparr>
         | Inr subtitle_height \<Rightarrow>
        (case compose_canvas resized_images (width (images ! 0)) subtitle_height of
           Inl err \<Rightarrow> \<lparr>result = Inl err, written = []\<rparr>
         | Inr new_image \<Rightarrow>
             \<lparr>result = Inr PyNone, written = [(output_path, new_image)]\<rparr>)))))"

text \<open>
  The body of that loop for one image (lines 35 to 43), on its own: what the loop
  appends for \<open>img\<close>.
\<close>

definition resized_image ::
  "(image \<Rightarrow> nat \<times> nat \<Rightarrow> int \<Rightarrow> int \<Rightarrow> rgb) \<Rightarrow> nat \<Rightarrow> image \<Rightarrow> py_error + image" where
  "resized_image lanczos target_width img =
     (if width img \<noteq> target_width then
        (case int_truediv (int target_width) (int (width img)) of
           Inl err \<Rightarrow> Inl err
         | Inr ratio \<Rightarrow>
             (case int_mul_float (int (height img)) ratio of
                Inl err \<Rightarrow> Inl err
              | Inr scaled \<Rightarrow>
                  (case py_int scaled of
                     Inl err \<Rightarrow> Inl err
                   | Inr new_height \<Rightarrow> resize lanczos img (int target_width, new_height))))
      else Inr img)"

subsection \<open>Example data\<close>

text \<open>
  Concrete inputs on which the model is run: images of one colour, a nearest-neighbour
  filter standing in for \<open>lanczos\<close>, and small folders.
\<close>

definition plain_image :: "nat \<Rightarrow> nat \<Rightarrow> rgb \<Rightarrow> image" where
  "plain_image w h colour = \<lparr>width = w, height = h, pixel = (\<lambda>x y. colour)\<rparr>"

definition nearest_filter :: "image \<Rightarrow> nat \<times> nat \<Rightarrow> int \<Rightarrow> int \<Rightarrow> rgb" where
  "nearest_filter img new_size x y =
     pixel img (x * int (width img) div int (fst new_size))
               (y * int (height img) div int (snd new_size))"

definition folder_one_png :: "fs_entry list" where
  "folder_one_png =
     [\<lparr>fname = ''notes.txt'', ctime = 3, content = None\<rparr>,
      \<lparr>fname = ''shot1.png'', ctime = 1, content = Some (plain_image 800 600 (200, 0, 0))\<rparr>]"

definition folder_three :: "fs_entry list" where
  "folder_three =
     [\<lparr>fname = ''shot3.png'', ctime = 1, content = Some (plain_image 800 550 (0, 0, 200))\<rparr>,
      \<lparr>fname = ''notes.txt'', ctime = 2, content = None\<rparr>,
      \<lparr>fname = ''shot1.png'', ctime = 9, content = Some (plain_image 800 600 (200, 0, 0))\<rparr>,
      \<lparr>fname = ''shot2.PNG'', ctime = 5, content = Some (plain_image 800 500 (0, 200, 0))\<rparr>]"

text \<open>The same files as \<open>folder_three\<close>, listed in another order with other times.\<close>

definition folder_three_later :: "fs_entry list" where
  "folder_three_later =
     [\<lparr>fname = ''shot2.PNG'', ctime = 40, content = Some (plain_image 800 500 (0, 200, 0))\<rparr>,
      \<lparr>fname = ''shot1.png'', ctime = 70, content = Some (plain_image 800 600 (200, 0, 0))\<rparr>,
      \<lparr>fname = ''shot3.png'', ctime = 10, content = Some (plain_image 800 550 (0, 0, 200))\<rparr>,
      \<lparr>fname = ''notes.txt'', ctime = 20, content = None\<rparr>]"

text \<open>A second image of half the width, and one of three quarters of the width.\<close>

definition folder_half_width :: "fs_entry list" where
  "folder_half_width =
     [\<lparr>fname = ''a.png'', ctime = 1, content = Some (plain_image 800 600 (200, 0, 0))\<rparr>,
      \<lparr>fname = ''b.png'', ctime = 2, content = Some (plain_image 400 300 (0, 200, 0))\<rparr>]"

definition folder_odd_height :: "fs_entry list" where
  "folder_odd_height =
     [\<lparr>fname = ''a.png'', ctime = 1, content = Some (plain_image 800 600 (200, 0, 0))\<rparr>,
      \<lparr>fname = ''b.png'', ctime = 2, content = Some (plain_image 600 401 (0, 200, 0))\<rparr>]"


section \<open>Lemmas\<close>

subsection \<open>Rounding to a binary64 value\<close>

lemma two_pow_powi: "two_pow e = 2 powi e"
  by (simp add: two_pow_def power_int_def field_simps)

lemma two_pow_pos: "0 < two_pow e"
  by (simp add: two_pow_powi)

lemma two_pow_add: "two_pow (a + b) = two_pow a * two_pow b"
  by (simp add: two_pow_powi power_int_add)

lemma two_pow_mono: "a \<le> b \<Longrightarrow> two_pow a \<le> two_pow b"
  by (simp add: two_pow_powi power_int_increasing)

lemma two_pow_of_nat: "two_pow (int n) = 2 ^ n"
  by (simp add: two_pow_def)

lemma two_pow_0: "two_pow 0 = 1"
  by (simp add: two_pow_def)

lemma two_pow_neg_mult: "two_pow (- e) * two_pow e = 1"
  using two_pow_add [of "- e" e] by (simp add: two_pow_0)

lemma bit_length_bounds:
  "0 < k \<Longrightarrow> 1 \<le> bit_length k \<and> 2 ^ nat (bit_length k - 1) \<le> k \<and> k < 2 ^ nat (bit_length k)"
proof (induction k rule: bit_length.induct)
  case (1 k)
  have bl: "bit_length k = 1 + bit_length (k div 2)"
    using "1.prems" bit_length.simps [of k] by simp
  show ?case
  proof (cases "k div 2 = 0")
    case True
    with "1.prems" have k1: "k = 1" by presburger
    have "bit_length (0::int) = 0" using bit_length.simps [of 0] by simp
    with bl k1 have "bit_length k = 1" by simp
    with k1 show ?thesis by simp
  next
    case False
    with "1.prems" have pos: "0 < k div 2" by presburger
    from "1.IH" pos "1.prems"
    have ih: "1 \<le> bit_length (k div 2)"
      "2 ^ nat (bit_length (k div 2) - 1) \<le> k div 2"
      "k div 2 < 2 ^ nat (bit_length (k div 2))"
      by auto
    have e1: "nat (bit_length k - 1) = Suc (nat (bit_length (k div 2) - 1))"
      using ih(1) bl by simp
    have e2: "nat (bit_length k) = Suc (nat (bit_length (k div 2)))"
      using ih(1) bl by simp
    have "2 * 2 ^ nat (bit_length (k div 2) - 1) \<le> k"
      using ih(2) by presburger
    moreover have "k < 2 * 2 ^ nat (bit_length (k div 2))"
      using ih(3) by presburger
    moreover have "1 \<le> bit_length k" using bl ih(1) by simp
    ultimately show ?thesis
      unfolding e1 e2 by simp
  qed
qed


lemma bit_length_two_pow:
  assumes "0 < k"
  shows "two_pow (bit_length k - 1) \<le> of_int k" and "of_int k < two_pow (bit_length k)"
proof -
  from bit_length_bounds [OF assms]
  have b: "1 \<le> bit_length k" "2 ^ nat (bit_length k - 1) \<le> k" "k < 2 ^ nat (bit_length k)"
    by auto
  have "two_pow (bit_length k - 1) = of_int (2 ^ nat (bit_length k - 1))"
    using b(1) by (simp add: two_pow_def)
  also have "\<dots> \<le> of_int k"
    using b(2) by (simp only: of_int_le_iff)
  finally show "two_pow (bit_length k - 1) \<le> of_int k" .
  have "(of_int k :: rat) < of_int (2 ^ nat (bit_length k))"
    using b(3) by (simp only: of_int_less_iff)
  also have "\<dots> = two_pow (bit_length k)"
    using b(1) by (simp add: two_pow_def)
  finally show "of_int k < two_pow (bit_length k)" .
qed

lemma floor_log2_bounds:
  assumes "0 < q"
  shows "two_pow (floor_log2 q) \<le> q" and "q < two_pow (floor_log2 q + 1)"
proof -
  obtain a b where ab: "quotient_of q = (a, b)" by (cases "quotient_of q")
  then have bpos: "0 < b" and q: "q = of_int a / of_int b"
    by (auto dest: quotient_of_denom_pos quotient_of_div)
  have apos: "0 < a"
    using assms bpos q by (simp add: zero_less_divide_iff)
  define d where "d = bit_length a - bit_length b"
  note A = bit_length_two_pow [OF apos]
  note B = bit_length_two_pow [OF bpos]
  have bp: "(0::rat) < of_int b" using bpos by simp
  have up: "q < two_pow (d + 1)"
  proof -
    have "of_int a < two_pow (d + 1) * two_pow (bit_length b - 1)"
      using A(2) by (simp add: d_def two_pow_add [symmetric])
    also have "\<dots> \<le> two_pow (d + 1) * of_int b"
      using B(1) two_pow_pos [of "d + 1"] by simp
    finally show ?thesis
      using bp by (simp add: q pos_divide_less_eq)
  qed
  have lo: "two_pow (d - 1) < q"
  proof -
    have "two_pow (d - 1) * of_int b < two_pow (d - 1) * two_pow (bit_length b)"
      using B(2) two_pow_pos [of "d - 1"] by simp
    also have "\<dots> = two_pow (bit_length a - 1)"
      by (simp add: d_def two_pow_add [symmetric])
    also have "\<dots> \<le> of_int a" by (rule A(1))
    finally show ?thesis
      using bp by (simp add: q pos_less_divide_eq)
  qed
  have fl: "floor_log2 q = (if two_pow d \<le> q then d else d - 1)"
    by (simp add: floor_log2_def ab d_def Let_def)
  show "two_pow (floor_log2 q) \<le> q"
    using lo by (simp add: fl)
  show "q < two_pow (floor_log2 q + 1)"
    using up by (simp add: fl)
qed

lemma floor_log2_less:
  assumes "0 < q" and "q < two_pow n"
  shows "floor_log2 q < n"
proof (rule ccontr)
  assume "\<not> floor_log2 q < n"
  then have "two_pow n \<le> two_pow (floor_log2 q)"
    by (intro two_pow_mono) simp
  with floor_log2_bounds(1) [OF assms(1)] assms(2) show False by simp
qed

lemma round_half_even_of_int: "round_half_even (of_int n) = n"
  by (simp add: round_half_even_def)


lemma round_half_even_nonneg:
  assumes "0 \<le> x"
  shows "0 \<le> round_half_even x"
proof -
  have "0 \<le> \<lfloor>x\<rfloor>" using assms by simp
  then show ?thesis
    by (simp add: round_half_even_def Let_def)
qed


lemma round_double_pos:
  assumes "0 < q"
  shows "round_double q =
           (let e = max (- 1074) (floor_log2 q - 52);
                v = of_int (round_half_even (q / two_pow e)) * two_pow e
            in if 2 ^ 1024 \<le> v then Infinity else Finite v)"
  using assms by (simp add: round_double_def Let_def)

lemma round_double_nonneg:
  assumes "0 \<le> q" and "round_double q = Finite v"
  shows "0 \<le> v"
proof (cases "q = 0")
  case True
  with assms(2) show ?thesis by (simp add: round_double_def)
next
  case False
  with assms(1) have pos: "0 < q" by simp
  define e where "e = max (- 1074) (floor_log2 q - 52)"
  have "0 \<le> q / two_pow e"
    using pos two_pow_pos [of e] by simp
  then have "0 \<le> round_half_even (q / two_pow e)"
    by (rule round_half_even_nonneg)
  then have "0 \<le> of_int (round_half_even (q / two_pow e)) * two_pow e"
    using two_pow_pos [of e] by simp
  with assms(2) show ?thesis
    by (simp add: round_double_pos [OF pos] Let_def e_def split: if_splits)
qed



lemma round_double_of_int:
  assumes "0 \<le> h" and "h < 2 ^ 53"
  shows "round_double (of_int h) = Finite (of_int h)"
proof (cases "h = 0")
  case True
  then show ?thesis by (simp add: round_double_def)
next
  case False
  with assms(1) have pos: "(0::rat) < of_int h" by simp
  define e where "e = max (- 1074) (floor_log2 (of_int h) - 52)"
  have "(of_int h :: rat) < of_int (2 ^ 53)"
    using assms(2) by (simp only: of_int_less_iff)
  then have "(of_int h :: rat) < two_pow 53"
    by (simp add: two_pow_def)
  then have "floor_log2 (of_int h) < 53"
    by (rule floor_log2_less [OF pos])
  then have e0: "e \<le> 0" by (simp add: e_def)
  have tp: "two_pow e = 1 / 2 ^ nat (- e)"
    using e0 by (cases "e = 0") (simp_all add: two_pow_def)
  have "of_int h / two_pow e = (of_int (h * 2 ^ nat (- e)) :: rat)"
    by (simp add: tp)
  then have m: "round_half_even (of_int h / two_pow e) = h * 2 ^ nat (- e)"
    by (simp only: round_half_even_of_int)
  have v: "of_int (h * 2 ^ nat (- e)) * two_pow e = (of_int h :: rat)"
    by (simp add: tp)
  have "(of_int h :: rat) < 2 ^ 1024"
  proof -
    have "(of_int h :: rat) < of_int (2 ^ 53)"
      using assms(2) by (simp only: of_int_less_iff)
    also have "\<dots> < 2 ^ 1024" by simp
    finally show ?thesis .
  qed
  then have fin: "\<not> (2 ^ 1024 \<le> (of_int h :: rat))" by simp
  have "round_double (of_int h) =
          (if 2 ^ 1024 \<le> of_int (round_half_even (of_int h / two_pow e)) * two_pow e
           then Infinity
           else Finite (of_int (round_half_even (of_int h / two_pow e)) * two_pow e))"
    by (simp add: round_double_pos [OF pos] Let_def e_def)
  also have "\<dots> = Finite (of_int h)"
    unfolding m v using fin by (simp only: if_False)
  finally show ?thesis .
qed




lemma float_of_int_exact:
  assumes "0 \<le> h" and "h < 2 ^ 53"
  shows "float_of_int h = Inr (of_int h)"
  by (simp add: float_of_int_def round_double_of_int [OF assms])

lemma float_of_int_nonneg:
  assumes "0 \<le> h" and "float_of_int h = Inr x"
  shows "0 \<le> x"
proof -
  from assms(2) have "round_double (of_int h) = Finite x"
    by (simp add: float_of_int_def split: py_float.splits)
  moreover have "(0::rat) \<le> of_int h" using assms(1) by simp
  ultimately show ?thesis by (rule round_double_nonneg [rotated])
qed



lemma py_int_nonneg:
  assumes "0 \<le> v"
  shows "py_int (Finite v) = Inr \<lfloor>v\<rfloor>"
  using assms by (simp add: py_int_def)

text \<open>Rounding at a concrete fraction, by integer arithmetic.\<close>

lemma floor_log2_unique:
  assumes "two_pow n \<le> q" and "q < two_pow (n + 1)"
  shows "floor_log2 q = n"
proof -
  have pos: "0 < q" using two_pow_pos [of n] assms(1) by simp
  note b = floor_log2_bounds [OF pos]
  have "floor_log2 q < n + 1"
    using pos assms(2) by (rule floor_log2_less)
  moreover have "n < floor_log2 q + 1"
  proof (rule ccontr)
    assume "\<not> n < floor_log2 q + 1"
    then have "two_pow (floor_log2 q + 1) \<le> two_pow n"
      by (intro two_pow_mono) simp
    with b(2) assms(1) show False by simp
  qed
  ultimately show ?thesis by simp
qed

lemma round_half_even_fraction:
  assumes "0 < b"
  shows "round_half_even (of_int a / of_int b) =
           (if 2 * (a mod b) < b then a div b
            else if b < 2 * (a mod b) then a div b + 1
            else if even (a div b) then a div b else a div b + 1)"
proof -
  have bp: "(0::rat) < of_int b" using assms by simp
  have f: "\<lfloor>of_int a / of_int b :: rat\<rfloor> = a div b"
    by (rule floor_divide_of_int_eq)
  have "a = a div b * b + a mod b" by simp
  then have "(of_int a :: rat) = of_int (a div b) * of_int b + of_int (a mod b)"
    by (metis of_int_add of_int_mult)
  then have "(of_int a / of_int b :: rat) = of_int (a div b) + of_int (a mod b) / of_int b"
    using bp by (simp add: field_simps)
  then have d: "of_int a / of_int b - of_int (a div b) = (of_int (a mod b) / of_int b :: rat)"
    by simp
  have lt: "(of_int (a mod b) / of_int b :: rat) < 1 / 2 \<longleftrightarrow> 2 * (a mod b) < b"
  proof -
    have "(of_int (a mod b) / of_int b :: rat) < 1 / 2 \<longleftrightarrow>
            (of_int (2 * (a mod b)) :: rat) < of_int b"
      using bp by (simp add: field_simps)
    then show ?thesis by (simp only: of_int_less_iff)
  qed
  have gt: "1 / 2 < (of_int (a mod b) / of_int b :: rat) \<longleftrightarrow> b < 2 * (a mod b)"
  proof -
    have "1 / 2 < (of_int (a mod b) / of_int b :: rat) \<longleftrightarrow>
            (of_int b :: rat) < of_int (2 * (a mod b))"
      using bp by (simp add: field_simps)
    then show ?thesis by (simp only: of_int_less_iff)
  qed
  show ?thesis
    unfolding round_half_even_def Let_def f d lt gt by simp
qed

lemma round_double_fraction:
  assumes "0 < a" and "0 < b"
    and "two_pow n \<le> of_int a / of_int b" and "of_int a / of_int b < two_pow (n + 1)"
    and "k = nat (- max (- 1074) (n - 52))" and "n \<le> 52"
    and "m = (if 2 * ((a * 2 ^ k) mod b) < b then (a * 2 ^ k) div b
              else if b < 2 * ((a * 2 ^ k) mod b) then (a * 2 ^ k) div b + 1
              else if even ((a * 2 ^ k) div b) then (a * 2 ^ k) div b
              else (a * 2 ^ k) div b + 1)"
    and "(of_int m / 2 ^ k :: rat) < 2 ^ 1024"
  shows "round_double (of_int a / of_int b) = Finite (of_int m / 2 ^ k)"
proof -
  define e where "e = max (- 1074) (n - 52)"
  have e0: "e \<le> 0" using assms(6) by (simp add: e_def)
  have k: "k = nat (- e)" using assms(5) by (simp add: e_def)
  have tp: "two_pow e = 1 / 2 ^ k"
    using e0 k by (cases "e = 0") (simp_all add: two_pow_def)
  have q: "(0::rat) < of_int a / of_int b" using assms(1,2) by simp
  have fl: "floor_log2 (of_int a / of_int b) = n"
    using assms(3,4) by (rule floor_log2_unique)
  have "of_int a / of_int b / two_pow e = (of_int (a * 2 ^ k) / of_int b :: rat)"
    by (simp add: tp)
  then have m: "round_half_even (of_int a / of_int b / two_pow e) = m"
    unfolding assms(7) by (simp only: round_half_even_fraction [OF assms(2)])
  have v: "of_int m * two_pow e = (of_int m / 2 ^ k :: rat)" by (simp add: tp)
  have "round_double (of_int a / of_int b) =
          (if 2 ^ 1024 \<le> of_int m * two_pow e then Infinity
           else Finite (of_int m * two_pow e))"
    using m by (simp add: round_double_pos [OF q] Let_def fl e_def)
  also have "\<dots> = Finite (of_int m / 2 ^ k)"
    unfolding v using assms(8) by simp
  finally show ?thesis .
qed

lemma int_truediv_exact:
  assumes "b \<noteq> 0" and "a = c * b" and "0 \<le> c" and "c < 2 ^ 53"
  shows "int_truediv a b = Inr (of_int c)"
proof -
  have "(of_int a / of_int b :: rat) = of_int c"
    using assms(1,2) by simp
  then show ?thesis
    using assms(1) round_double_of_int [OF assms(3,4)] by (simp add: int_truediv_def)
qed

lemma int_mul_float_exact:
  assumes "0 \<le> h" and "h < 2 ^ 53" and "0 \<le> h * r" and "h * r < 2 ^ 53"
  shows "int_mul_float h (of_int r) = Inr (Finite (of_int (h * r)))"
proof -
  have "round_double (of_int h * of_int r) = Finite (of_int (h * r))"
    using round_double_of_int [OF assms(3,4)] by simp
  then show ?thesis
    by (simp add: int_mul_float_def float_mul_def float_of_int_exact [OF assms(1,2)])
qed

subsection \<open>Opening and rescaling\<close>

lemma open_images_length:
  "open_images d ps = Inr imgs \<Longrightarrow> length imgs = length ps"
  by (induction ps arbitrary: imgs) (auto split: sum.splits)


lemma int_truediv_nonneg:
  assumes "0 \<le> a" and "0 \<le> b" and "int_truediv a b = Inr v"
  shows "0 \<le> v"
proof -
  from assms(3) have "round_double (of_int a / of_int b) = Finite v"
    by (simp add: int_truediv_def split: if_splits py_float.splits)
  moreover have "(0::rat) \<le> of_int a / of_int b" using assms(1,2) by simp
  ultimately show ?thesis by (rule round_double_nonneg [rotated])
qed

lemma int_mul_float_nonneg:
  assumes "0 \<le> h" and "0 \<le> r" and "int_mul_float h r = Inr (Finite v)"
  shows "0 \<le> v"
proof -
  from assms(3) obtain x where x: "float_of_int h = Inr x" and v: "round_double (x * r) = Finite v"
    by (auto simp: int_mul_float_def float_mul_def split: sum.splits)
  from float_of_int_nonneg [OF assms(1) x] assms(2) have "0 \<le> x * r" by simp
  then show ?thesis using v by (rule round_double_nonneg)
qed

lemma resize_loop_step:
  "resize_loop L tw acc (img # rest) =
     (case resized_image L tw img of
        Inl err \<Rightarrow> Inl err
      | Inr r \<Rightarrow> resize_loop L tw (acc @ [r]) rest)"
  by (simp add: resized_image_def split: sum.splits)

lemma resize_loop_shape:
  assumes "resize_loop L tw acc imgs = Inr rs"
  shows "\<exists>new. rs = acc @ new \<and> length new = length imgs \<and>
           (\<forall>i < length imgs. resized_image L tw (imgs ! i) = Inr (new ! i))"
  using assms
proof (induction imgs arbitrary: acc)
  case Nil
  then show ?case by simp
next
  case (Cons img rest)
  from Cons.prems obtain r where
    one: "resized_image L tw img = Inr r"
    and r: "resize_loop L tw (acc @ [r]) rest = Inr rs"
    unfolding resize_loop_step by (auto split: sum.splits)
  from Cons.IH [OF r] obtain new where
    new: "rs = (acc @ [r]) @ new" "length new = length rest"
    and rest: "\<forall>i < length rest. resized_image L tw (rest ! i) = Inr (new ! i)"
    by blast
  have "\<forall>i < length (img # rest). resized_image L tw ((img # rest) ! i) = Inr ((r # new) ! i)"
  proof (intro allI impI)
    fix i assume "i < length (img # rest)"
    then show "resized_image L tw ((img # rest) ! i) = Inr ((r # new) ! i)"
      using one rest by (cases i) simp_all
  qed
  with new show ?case
    by (intro exI [of _ "r # new"]) simp
qed

lemma resize_loop_succeeds:
  assumes "\<forall>i < length imgs. \<exists>r. resized_image L tw (imgs ! i) = Inr r"
  shows "\<exists>rs. resize_loop L tw acc imgs = Inr rs"
  using assms
proof (induction imgs arbitrary: acc)
  case Nil
  then show ?case by simp
next
  case (Cons img rest)
  from Cons.prems have "\<exists>r. resized_image L tw ((img # rest) ! 0) = Inr r" by blast
  then obtain r where one: "resized_image L tw img = Inr r" by auto
  have "\<forall>i < length rest. \<exists>r. resized_image L tw (rest ! i) = Inr r"
  proof (intro allI impI)
    fix i assume "i < length rest"
    then have "Suc i < length (img # rest)" by simp
    with Cons.prems have "\<exists>r. resized_image L tw ((img # rest) ! Suc i) = Inr r" by blast
    then show "\<exists>r. resized_image L tw (rest ! i) = Inr r" by simp
  qed
  from Cons.IH [OF this, of "acc @ [r]"] show ?case
    unfolding resize_loop_step by (simp add: one)
qed

lemma resized_image_same:
  "width img = tw \<Longrightarrow> resized_image L tw img = Inr img"
  by (simp add: resized_image_def)

lemma resize_other_width:
  assumes "resize L img (int tw, nh) = Inr r" and "width img \<noteq> tw"
  shows "width r = tw" and "int (height r) = nh" and "1 \<le> tw" and "1 \<le> nh"
    and "pixel r = L img (tw, nat nh)"
  using assms by (auto simp: resize_def split: if_splits)

lemma resized_image_other:
  assumes "resized_image L tw img = Inr r" and "width img \<noteq> tw"
  shows "\<exists>ratio v. int_truediv (int tw) (int (width img)) = Inr ratio
           \<and> int_mul_float (int (height img)) ratio = Inr (Finite v)
           \<and> 0 \<le> v
           \<and> width r = tw \<and> int (height r) = \<lfloor>v\<rfloor>
           \<and> pixel r = L img (tw, nat \<lfloor>v\<rfloor>)"
proof -
  from assms obtain ratio scaled nh where
    s: "int_truediv (int tw) (int (width img)) = Inr ratio"
       "int_mul_float (int (height img)) ratio = Inr scaled"
       "py_int scaled = Inr nh"
       "resize L img (int tw, nh) = Inr r"
    by (auto simp: resized_image_def split: sum.splits)
  from s(3) obtain v where v: "scaled = Finite v"
    by (cases scaled) (auto simp: py_int_def)
  have r0: "0 \<le> ratio"
    using int_truediv_nonneg [OF _ _ s(1)] by simp
  have v0: "0 \<le> v"
    using int_mul_float_nonneg [OF _ r0 s(2) [unfolded v]] by simp
  with s(3) v have nh: "nh = \<lfloor>v\<rfloor>" by (simp add: py_int_def)
  from resize_other_width [OF s(4) assms(2)] s(1) s(2) v v0 nh
  show ?thesis by auto
qed

lemma resized_image_width:
  assumes "resized_image L tw img = Inr r"
  shows "width r = tw"
proof (cases "width img = tw")
  case True
  with assms show ?thesis by (simp add: resized_image_same)
next
  case False
  from resized_image_other [OF assms False] show ?thesis by blast
qed

text \<open>The normalised list: the first image, then every later image rescaled.\<close>

lemma resize_to_first_width_shape:
  assumes "resize_to_first_width L images = Inr rs" and "images \<noteq> []"
  shows "length rs = length images" and "rs ! 0 = images ! 0"
    and "\<And>i. 1 \<le> i \<Longrightarrow> i < length images \<Longrightarrow>
           resized_image L (width (images ! 0)) (images ! i) = Inr (rs ! i)"
proof -
  from assms(1) have loop: "resize_loop L (width (images ! 0)) [images ! 0] (tl images) = Inr rs"
    by (simp add: resize_to_first_width_def)
  from resize_loop_shape [OF loop] obtain new where
    new: "rs = [images ! 0] @ new" "length new = length (tl images)"
    and each: "\<forall>i < length (tl images).
                 resized_image L (width (images ! 0)) (tl images ! i) = Inr (new ! i)"
    by blast
  show "length rs = length images" using new assms(2) by simp
  show "rs ! 0 = images ! 0" using new by simp
  fix i assume i: "1 \<le> i" "i < length images"
  then obtain j where j: "i = Suc j" by (cases i) auto
  with i have "j < length (tl images)" by simp
  with each have "resized_image L (width (images ! 0)) (tl images ! j) = Inr (new ! j)" by blast
  moreover have "tl images ! j = images ! i" using j i assms(2) by (simp add: nth_tl)
  moreover have "new ! j = rs ! i" using j new by simp
  ultimately show "resized_image L (width (images ! 0)) (images ! i) = Inr (rs ! i)" by simp
qed

lemma resize_to_first_width_widths:
  assumes "resize_to_first_width L images = Inr rs" and "images \<noteq> []" and "i < length images"
  shows "width (rs ! i) = width (images ! 0)"
proof (cases i)
  case 0
  with resize_to_first_width_shape(2) [OF assms(1,2)] show ?thesis by simp
next
  case (Suc j)
  with assms(3) have "1 \<le> i" by simp
  from resize_to_first_width_shape(3) [OF assms(1,2) this assms(3)]
  show ?thesis by (rule resized_image_width)
qed

subsection \<open>Cropping and pasting\<close>

lemma crop_band:
  assumes "0 \<le> sh"
  shows "crop img (0, int (height img) - sh, int tw, int (height img)) =
           Inr \<lparr>width = tw, height = nat sh,
                pixel = (\<lambda>x y.
                  if 0 \<le> x + 0 \<and> x + 0 < int (width img) \<and>
                     0 \<le> y + (int (height img) - sh) \<and>
                     y + (int (height img) - sh) < int (height img)
                  then pixel img (x + 0) (y + (int (height img) - sh))
                  else zero_pixel)\<rparr>"
  using assms by (simp add: crop_def)

lemma crop_band_Inr:
  assumes "crop img (0, int (height img) - sh, int tw, int (height img)) = Inr band"
  shows "0 \<le> sh" and "width band = tw" and "int (height band) = sh"
  using assms by (auto simp: crop_def split: if_splits)

lemma crop_band_Inl:
  assumes "sh < 0"
  shows "crop img (0, int (height img) - sh, int tw, int (height img)) = Inl ValueError_crop_box"
  using assms by (simp add: crop_def)

lemma paste_size: "width (paste cv img off) = width cv" "height (paste cv img off) = height cv"
  by (simp_all add: paste_def)

lemma paste_pixel:
  "pixel (paste cv img off) x y =
     (if 0 \<le> x \<and> x < int (width cv) \<and> 0 \<le> y \<and> y < int (height cv) \<and>
         fst off \<le> x \<and> x < fst off + int (width img) \<and>
         snd off \<le> y \<and> y < snd off + int (height img)
      then pixel img (x - fst off) (y - snd off)
      else pixel cv x y)"
  by (simp add: paste_def)

lemma paste_subtitles_nonneg:
  assumes "paste_subtitles rs sh tw cv i (img # rest) = Inr c"
  shows "0 \<le> sh"
proof (rule ccontr)
  assume "\<not> 0 \<le> sh"
  then have "sh < 0" by simp
  from crop_band_Inl [OF this] assms show False by (simp add: Let_def)
qed

lemma paste_subtitles_succeeds:
  assumes "0 \<le> sh"
  shows "\<exists>c. paste_subtitles rs sh tw cv i imgs = Inr c"
proof (induction imgs arbitrary: cv i)
  case Nil
  show ?case by simp
next
  case (Cons img rest)
  show ?case
    using Cons.IH by (simp add: Let_def crop_band [OF assms])
qed


lemma paste_subtitles_above:
  assumes "paste_subtitles rs sh tw cv i imgs = Inr c" and "0 \<le> sh"
    and "y < int (height (rs ! 0)) + sh * (i - 1)"
  shows "pixel c x y = pixel cv x y"
  using assms(1,3)
proof (induction imgs arbitrary: cv i)
  case Nil
  then show ?case by simp
next
  case (Cons img rest)
  from Cons.prems(1) obtain band where
    band: "crop img (0, int (height img) - sh, int tw, int (height img)) = Inr band"
    and rec: "paste_subtitles rs sh tw
                (paste cv band (0, int (height (rs ! 0)) + sh * (i - 1))) (i + 1) rest = Inr c"
    by (auto simp: Let_def split: sum.splits)
  have "sh * (i - 1) \<le> sh * (i + 1 - 1)"
    using assms(2) by (simp add: mult_left_mono)
  with Cons.prems(2) have "y < int (height (rs ! 0)) + sh * (i + 1 - 1)" by simp
  from Cons.IH [OF rec this]
  have "pixel c x y = pixel (paste cv band (0, int (height (rs ! 0)) + sh * (i - 1))) x y" .
  also have "\<dots> = pixel cv x y"
    using Cons.prems(2) by (simp add: paste_pixel)
  finally show ?case .
qed

lemma paste_subtitles_band:
  assumes "paste_subtitles rs sh tw cv i imgs = Inr c"
    and "k < length imgs"
    and "crop (imgs ! k) (0, int (height (imgs ! k)) - sh, int tw, int (height (imgs ! k))) = Inr band"
    and "0 \<le> x" and "x < int tw" and "x < int (width cv)"
    and "0 \<le> j" and "j < sh"
    and "0 \<le> int (height (rs ! 0)) + sh * (i + int k - 1) + j"
    and "int (height (rs ! 0)) + sh * (i + int k - 1) + j < int (height cv)"
  shows "pixel c x (int (height (rs ! 0)) + sh * (i + int k - 1) + j) = pixel band x j"
  using assms(1,2,3,6,9,10)
proof (induction imgs arbitrary: cv i k)
  case Nil
  then show ?case by simp
next
  case (Cons img rest)
  have sh0: "0 \<le> sh" using assms(7,8) by simp
  from Cons.prems(1) obtain b0 where
    b0: "crop img (0, int (height img) - sh, int tw, int (height img)) = Inr b0"
    and rec: "paste_subtitles rs sh tw
                (paste cv b0 (0, int (height (rs ! 0)) + sh * (i - 1))) (i + 1) rest = Inr c"
    by (auto simp: Let_def split: sum.splits)
  show ?case
  proof (cases k)
    case 0
    with Cons.prems(3) b0 have bb: "b0 = band" by simp
    have "sh * (i - 1) + j < sh * (i - 1) + sh" using assms(8) by simp
    also have "\<dots> = sh * (i + 1 - 1)" by (simp add: algebra_simps)
    finally have "int (height (rs ! 0)) + sh * (i + int k - 1) + j
                    < int (height (rs ! 0)) + sh * (i + 1 - 1)"
      using 0 by simp
    from paste_subtitles_above [OF rec sh0 this]
    have "pixel c x (int (height (rs ! 0)) + sh * (i + int k - 1) + j)
            = pixel (paste cv b0 (0, int (height (rs ! 0)) + sh * (i - 1))) x
                (int (height (rs ! 0)) + sh * (i + int k - 1) + j)" .
    also have "\<dots> = pixel band x j"
      using 0 Cons.prems(4,5,6) assms(4,5,7,8) crop_band_Inr [OF b0] bb
      by (simp add: paste_pixel)
    finally show ?thesis .
  next
    case (Suc k')
    with Cons.prems(2) have k': "k' < length rest" by simp
    have idx: "i + 1 + int k' - 1 = i + int k - 1" using Suc by simp
    from Cons.prems(3) Suc have
      cb: "crop (rest ! k') (0, int (height (rest ! k')) - sh, int tw, int (height (rest ! k'))) = Inr band"
      by simp
    have "pixel c x (int (height (rs ! 0)) + sh * (i + 1 + int k' - 1) + j) = pixel band x j"
      by (rule Cons.IH [OF rec k' cb])
         (use Cons.prems(4,5,6) in \<open>simp_all add: paste_size idx\<close>)
    then show ?thesis by (simp only: idx)
  qed
qed

lemma crop_band_pixel:
  assumes "crop img (0, int (height img) - sh, int tw, int (height img)) = Inr band"
  shows "pixel band x j =
           (if 0 \<le> x \<and> x < int (width img) \<and> 0 \<le> j + (int (height img) - sh) \<and> j < sh
            then pixel img x (j + (int (height img) - sh))
            else zero_pixel)"
  using assms by (auto simp: crop_def split: if_splits)

subsection \<open>The canvas\<close>

lemma compose_canvas_unfold:
  "compose_canvas rs tw sh =
     (case Image_new (int tw, int (height (rs ! 0)) + sh * (int (length rs) - 1)) of
        Inl err \<Rightarrow> Inl err
      | Inr new_image \<Rightarrow>
          paste_subtitles rs sh tw (paste new_image (rs ! 0) (0, 0)) 1 (tl rs))"
  by (simp add: compose_canvas_def Let_def)

lemma Image_new_Inr:
  assumes "Image_new (w, h) = Inr cv"
  shows "0 \<le> w" and "0 \<le> h" and "int (width cv) = w" and "int (height cv) = h"
    and "pixel cv = (\<lambda>x y. white)"
  using assms by (auto simp: Image_new_def split: if_splits)

lemma compose_canvas_nonneg:
  assumes "compose_canvas rs tw sh = Inr c" and "2 \<le> length rs"
  shows "0 \<le> sh"
proof -
  from assms(2) obtain a b rest where rs: "rs = a # b # rest"
    by (cases rs; cases "tl rs") auto
  from assms(1) obtain cv where
    "paste_subtitles rs sh tw (paste cv (rs ! 0) (0, 0)) 1 (b # rest) = Inr c"
    unfolding compose_canvas_unfold by (auto simp: rs split: sum.splits)
  then show ?thesis by (rule paste_subtitles_nonneg)
qed

lemma compose_canvas_succeeds:
  assumes "0 \<le> sh" and "rs \<noteq> []"
  shows "\<exists>c. compose_canvas rs tw sh = Inr c"
proof -
  have "0 \<le> int (length rs) - 1" using assms(2) by (cases rs) auto
  then have "0 \<le> sh * (int (length rs) - 1)" using assms(1) by simp
  then have "0 \<le> int (height (rs ! 0)) + sh * (int (length rs) - 1)" by simp
  then obtain cv where
    "Image_new (int tw, int (height (rs ! 0)) + sh * (int (length rs) - 1)) = Inr cv"
    by (auto simp: Image_new_def)
  with paste_subtitles_succeeds [OF assms(1), of rs tw "paste cv (rs ! 0) (0, 0)" 1 "tl rs"]
  show ?thesis unfolding compose_canvas_unfold by auto
qed

lemma compose_canvas_parts:
  assumes "compose_canvas rs tw sh = Inr c"
  obtains cv where
    "Image_new (int tw, int (height (rs ! 0)) + sh * (int (length rs) - 1)) = Inr cv"
    and "paste_subtitles rs sh tw (paste cv (rs ! 0) (0, 0)) 1 (tl rs) = Inr c"
  using assms unfolding compose_canvas_unfold by (auto split: sum.splits)


lemma compose_canvas_first:
  assumes "compose_canvas rs tw sh = Inr c" and "0 \<le> sh" and "rs \<noteq> []"
    and "width (rs ! 0) = tw"
    and "0 \<le> x" and "x < int tw" and "0 \<le> y" and "y < int (height (rs ! 0))"
  shows "pixel c x y = pixel (rs ! 0) x y"
proof -
  from assms(1) obtain cv where
    cv: "Image_new (int tw, int (height (rs ! 0)) + sh * (int (length rs) - 1)) = Inr cv"
    and ps: "paste_subtitles rs sh tw (paste cv (rs ! 0) (0, 0)) 1 (tl rs) = Inr c"
    by (rule compose_canvas_parts)
  have "0 \<le> int (length rs) - 1" using assms(3) by (cases rs) auto
  then have "0 \<le> sh * (int (length rs) - 1)" using assms(2) by simp
  with Image_new_Inr(3,4) [OF cv] assms(8)
  have dims: "int (width cv) = int tw" "y < int (height cv)" by simp_all
  have "y < int (height (rs ! 0)) + sh * (1 - 1)" using assms(8) by simp
  from paste_subtitles_above [OF ps assms(2) this]
  have "pixel c x y = pixel (paste cv (rs ! 0) (0, 0)) x y" .
  also have "\<dots> = pixel (rs ! 0) x y"
    using assms(4-8) dims by (simp add: paste_pixel)
  finally show ?thesis .
qed

lemma compose_canvas_band:
  assumes "compose_canvas rs tw sh = Inr c"
    and "1 \<le> p" and "p < length rs"
    and "crop (rs ! p) (0, int (height (rs ! p)) - sh, int tw, int (height (rs ! p))) = Inr band"
    and "0 \<le> x" and "x < int tw" and "0 \<le> j" and "j < sh"
  shows "pixel c x (int (height (rs ! 0)) + sh * (int p - 1) + j) = pixel band x j"
proof -
  from assms(1) obtain cv where
    cv: "Image_new (int tw, int (height (rs ! 0)) + sh * (int (length rs) - 1)) = Inr cv"
    and ps: "paste_subtitles rs sh tw (paste cv (rs ! 0) (0, 0)) 1 (tl rs) = Inr c"
    by (rule compose_canvas_parts)
  from assms(2) obtain k where k: "p = Suc k" by (cases p) auto
  with assms(3) have kl: "k < length (tl rs)" by simp
  have nth: "tl rs ! k = rs ! p" using k assms(3) by (simp add: nth_tl)
  have sh0: "0 \<le> sh" using assms(7,8) by simp
  have idx: "1 + int k - 1 = int p - 1" using k by simp
  have "sh * (int p - 1) + j < sh * (int p - 1) + sh" using assms(8) by simp
  also have "\<dots> = sh * int p" by (simp add: algebra_simps)
  also have "\<dots> \<le> sh * (int (length rs) - 1)"
    using sh0 assms(3) by (intro mult_left_mono) simp_all
  finally have below: "int (height (rs ! 0)) + sh * (int p - 1) + j
                        < int (height (rs ! 0)) + sh * (int (length rs) - 1)" by simp
  have "0 \<le> sh * (int p - 1)" using sh0 assms(2) by simp
  then have above: "0 \<le> int (height (rs ! 0)) + sh * (int p - 1) + j"
    using assms(7) by simp
  have "pixel c x (int (height (rs ! 0)) + sh * (1 + int k - 1) + j) = pixel band x j"
    by (rule paste_subtitles_band [OF ps kl])
       (use assms(4-8) nth idx above below Image_new_Inr(3,4) [OF cv]
         in \<open>simp_all add: paste_size\<close>)
  then show ?thesis by (simp only: idx)
qed

subsection \<open>The whole call\<close>

text \<open>The call as a whole, from its stages.\<close>

lemma merge_too_few:
  assumes "length (image_files d) < 2"
  shows "merge_screenshots_with_subtitles L d out ratio =
           \<lparr>result = Inl ValueError_two_png_required, written = []\<rparr>"
  using assms by (simp add: merge_screenshots_with_subtitles_def)

lemma merge_from_stages:
  assumes "2 \<le> length (image_files d)"
    and "open_images d (image_files d) = Inr images"
    and "resize_to_first_width L images = Inr rs"
    and "subtitle_height_of rs ratio = Inr sh"
    and "compose_canvas rs (width (images ! 0)) sh = Inr c"
  shows "merge_screenshots_with_subtitles L d out ratio =
           \<lparr>result = Inr PyNone, written = [(out, c)]\<rparr>"
  using assms by (simp add: merge_screenshots_with_subtitles_def)

lemma merge_stages:
  assumes "\<not> isl (result (merge_screenshots_with_subtitles L d out ratio))"
  obtains images rs sh c where
    "2 \<le> length (image_files d)"
    and "open_images d (image_files d) = Inr images"
    and "resize_to_first_width L images = Inr rs"
    and "subtitle_height_of rs ratio = Inr sh"
    and "compose_canvas rs (width (images ! 0)) sh = Inr c"
    and "merge_screenshots_with_subtitles L d out ratio =
           \<lparr>result = Inr PyNone, written = [(out, c)]\<rparr>"
proof -
  have n: "2 \<le> length (image_files d)"
  proof (rule ccontr)
    assume "\<not> 2 \<le> length (image_files d)"
    then have "length (image_files d) < 2" by simp
    from merge_too_few [OF this, of L out ratio] assms show False by simp
  qed
  then have n': "\<not> length (image_files d) < 2" by simp
  obtain images where im: "open_images d (image_files d) = Inr images"
  proof (cases "open_images d (image_files d)")
    case (Inl e)
    with n' assms show ?thesis by (simp add: merge_screenshots_with_subtitles_def)
  next
    case (Inr images)
    then show ?thesis by (rule that)
  qed
  obtain rs where rs: "resize_to_first_width L images = Inr rs"
  proof (cases "resize_to_first_width L images")
    case (Inl e)
    with n' im assms show ?thesis by (simp add: merge_screenshots_with_subtitles_def)
  next
    case (Inr rs)
    then show ?thesis by (rule that)
  qed
  obtain sh where sh: "subtitle_height_of rs ratio = Inr sh"
  proof (cases "subtitle_height_of rs ratio")
    case (Inl e)
    with n' im rs assms show ?thesis by (simp add: merge_screenshots_with_subtitles_def)
  next
    case (Inr sh)
    then show ?thesis by (rule that)
  qed
  obtain c where c: "compose_canvas rs (width (images ! 0)) sh = Inr c"
  proof (cases "compose_canvas rs (width (images ! 0)) sh")
    case (Inl e)
    with n' im rs sh assms show ?thesis by (simp add: merge_screenshots_with_subtitles_def)
  next
    case (Inr c)
    then show ?thesis by (rule that)
  qed
  from merge_from_stages [OF n im rs sh c] n im rs sh c show ?thesis by (rule that [rotated 5])
qed

lemma merge_error_writes_nothing:
  assumes "isl (result (merge_screenshots_with_subtitles L d out ratio))"
  shows "written (merge_screenshots_with_subtitles L d out ratio) = []"
proof (rule ccontr)
  assume w: "written (merge_screenshots_with_subtitles L d out ratio) \<noteq> []"
  have "\<not> isl (result (merge_screenshots_with_subtitles L d out ratio))"
  proof (cases "length (image_files d) < 2")
    case True
    from merge_too_few [OF this, of L out ratio] w show ?thesis by simp
  next
    case n: False
    show ?thesis
    proof (cases "open_images d (image_files d)")
      case (Inl e)
      with n w show ?thesis by (simp add: merge_screenshots_with_subtitles_def)
    next
      case im: (Inr images)
      show ?thesis
      proof (cases "resize_to_first_width L images")
        case (Inl e)
        with n im w show ?thesis by (simp add: merge_screenshots_with_subtitles_def)
      next
        case rs: (Inr rs)
        show ?thesis
        proof (cases "subtitle_height_of rs ratio")
          case (Inl e)
          with n im rs w show ?thesis by (simp add: merge_screenshots_with_subtitles_def)
        next
          case sh: (Inr sh)
          show ?thesis
          proof (cases "compose_canvas rs (width (images ! 0)) sh")
            case (Inl e)
            with n im rs sh w show ?thesis by (simp add: merge_screenshots_with_subtitles_def)
          next
            case (Inr c)
            with n im rs sh show ?thesis by (simp add: merge_screenshots_with_subtitles_def)
          qed
        qed
      qed
    qed
  qed
  with assms show False by simp
qed



subsection \<open>File names and folders\<close>










lemma image_files_sorted: "sorted (image_files d)"
  by (simp add: image_files_def)

lemma image_files_set:
  "set (image_files d) = {f \<in> set (os_listdir d). endswith (str_lower f) ''.png''}"
  by (simp add: image_files_def)

lemma image_files_distinct: "distinct (os_listdir d) \<Longrightarrow> distinct (image_files d)"
  by (simp add: image_files_def)

lemma image_files_cong:
  assumes "distinct (os_listdir d)" and "distinct (os_listdir d')"
    and "set (os_listdir d) = set (os_listdir d')"
  shows "image_files d = image_files d'"
proof (rule sorted_distinct_set_unique)
  show "set (image_files d) = set (image_files d')"
    using assms(3) by (simp add: image_files_set)
qed (simp_all add: image_files_sorted image_files_distinct assms)

lemma find_by_name:
  assumes "distinct (map fname d)" and "e \<in> set d"
  shows "find (\<lambda>entry. fname entry = fname e) d = Some e"
  using assms
proof (induction d)
  case Nil
  then show ?case by simp
next
  case (Cons a d)
  show ?case
  proof (cases "a = e")
    case True
    then show ?thesis by simp
  next
    case False
    with Cons.prems have e: "e \<in> set d" by simp
    with Cons.prems(1) have "fname a \<noteq> fname e" by auto
    with Cons.IH e Cons.prems(1) show ?thesis by simp
  qed
qed

lemma Image_open_entry:
  assumes "distinct (os_listdir d)" and "e \<in> set d"
  shows "Image_open d (fname e) =
           (case content e of None \<Rightarrow> Inl UnidentifiedImageError | Some img \<Rightarrow> Inr img)"
  using find_by_name [of d e] assms by (simp add: Image_open_def os_listdir_def)

lemma Image_open_missing:
  assumes "p \<notin> set (os_listdir d)"
  shows "Image_open d p = Inl FileNotFoundError"
proof -
  have "find (\<lambda>entry. fname entry = p) d = None"
    using assms by (auto simp: find_None_iff os_listdir_def)
  then show ?thesis by (simp add: Image_open_def)
qed

lemma Image_open_cong:
  assumes "distinct (os_listdir d)" and "distinct (os_listdir d')"
    and "set (map (\<lambda>e. (fname e, content e)) d) = set (map (\<lambda>e. (fname e, content e)) d')"
  shows "Image_open d p = Image_open d' p"
proof (cases "p \<in> set (os_listdir d)")
  case True
  then obtain e where e: "e \<in> set d" "fname e = p"
    by (auto simp: os_listdir_def)
  then have "(p, content e) \<in> set (map (\<lambda>e. (fname e, content e)) d)" by force
  with assms(3) have "(p, content e) \<in> set (map (\<lambda>e. (fname e, content e)) d')" by simp
  then obtain e' where e': "e' \<in> set d'" "fname e' = p" "content e' = content e"
    by auto
  from Image_open_entry [OF assms(1) e(1)] Image_open_entry [OF assms(2) e'(1)] e(2) e'(2,3)
  show ?thesis by simp
next
  case False
  have names: "set (os_listdir d) = fst ` set (map (\<lambda>e. (fname e, content e)) d)"
    "set (os_listdir d') = fst ` set (map (\<lambda>e. (fname e, content e)) d')"
    by (auto simp: os_listdir_def image_iff)
  with assms(3) have "set (os_listdir d) = set (os_listdir d')" by simp
  with False have "p \<notin> set (os_listdir d')" by simp
  with False show ?thesis by (simp add: Image_open_missing)
qed

lemma same_files_same_names:
  assumes "set (map (\<lambda>e. (fname e, content e)) d) = set (map (\<lambda>e. (fname e, content e)) d')"
  shows "set (os_listdir d) = set (os_listdir d')"
proof -
  have "set (os_listdir d) = fst ` set (map (\<lambda>e. (fname e, content e)) d)"
    "set (os_listdir d') = fst ` set (map (\<lambda>e. (fname e, content e)) d')"
    by (auto simp: os_listdir_def image_iff)
  with assms show ?thesis by simp
qed

lemma open_images_cong:
  assumes "distinct (os_listdir d)" and "distinct (os_listdir d')"
    and "set (map (\<lambda>e. (fname e, content e)) d) = set (map (\<lambda>e. (fname e, content e)) d')"
  shows "open_images d ps = open_images d' ps"
  by (induction ps) (simp_all add: Image_open_cong [OF assms] split: sum.splits)

lemma merge_cong:
  assumes "distinct (os_listdir d)" and "distinct (os_listdir d')"
    and "set (map (\<lambda>e. (fname e, content e)) d) = set (map (\<lambda>e. (fname e, content e)) d')"
  shows "merge_screenshots_with_subtitles L d out ratio =
           merge_screenshots_with_subtitles L d' out ratio"
proof -
  have "image_files d = image_files d'"
    using assms(1,2) same_files_same_names [OF assms(3)] by (rule image_files_cong)
  then show ?thesis
    by (simp add: merge_screenshots_with_subtitles_def open_images_cong [OF assms])
qed

subsection \<open>The example folders, stage by stage\<close>

lemma folder_three_files:
  "image_files folder_three = [''shot1.png'', ''shot2.PNG'', ''shot3.png'']"
  by code_simp

lemma folder_three_count: "2 \<le> length (image_files folder_three)"
  unfolding folder_three_files by simp

lemma folder_three_images:
  "open_images folder_three (image_files folder_three) =
     Inr [plain_image 800 600 (200, 0, 0), plain_image 800 500 (0, 200, 0),
          plain_image 800 550 (0, 0, 200)]"
  unfolding folder_three_files by (simp add: folder_three_def Image_open_def)

lemma folder_three_resized:
  "resize_to_first_width nearest_filter
     [plain_image 800 600 (200, 0, 0), plain_image 800 500 (0, 200, 0),
      plain_image 800 550 (0, 0, 200)] =
   Inr [plain_image 800 600 (200, 0, 0), plain_image 800 500 (0, 200, 0),
        plain_image 800 550 (0, 0, 200)]"
  by (simp add: resize_to_first_width_def plain_image_def)

lemma folder_three_quotient: "int_truediv_num 600 (PyInt 5) = Inr (Finite 120)"
  using int_truediv_exact [of 5 600 120] by simp

lemma folder_three_height:
  "subtitle_height_of
     [plain_image 800 600 (200, 0, 0), plain_image 800 500 (0, 200, 0),
      plain_image 800 550 (0, 0, 200)] (PyInt 5) = Inr 120"
proof -
  have "int (height ([plain_image 800 600 (200, 0, 0), plain_image 800 500 (0, 200, 0),
          plain_image 800 550 (0, 0, 200)] ! 0)) = 600"
    by (simp add: plain_image_def)
  then show ?thesis
    unfolding subtitle_height_of_def by (simp only: folder_three_quotient) (simp add: py_int_def)
qed

lemma folder_three_ends_normally:
  "\<not> isl (result (merge_screenshots_with_subtitles nearest_filter folder_three ''out.png''
                    (PyInt 5)))"
proof -
  from compose_canvas_succeeds [of 120
         "[plain_image 800 600 (200, 0, 0), plain_image 800 500 (0, 200, 0),
           plain_image 800 550 (0, 0, 200)]"
         "width ([plain_image 800 600 (200, 0, 0), plain_image 800 500 (0, 200, 0),
           plain_image 800 550 (0, 0, 200)] ! 0)"]
  obtain c where
    "compose_canvas
       [plain_image 800 600 (200, 0, 0), plain_image 800 500 (0, 200, 0),
        plain_image 800 550 (0, 0, 200)]
       (width ([plain_image 800 600 (200, 0, 0), plain_image 800 500 (0, 200, 0),
                plain_image 800 550 (0, 0, 200)] ! 0)) 120 = Inr c"
    by auto
  from merge_from_stages
         [OF folder_three_count folder_three_images folder_three_resized folder_three_height this]
  show ?thesis by simp
qed






lemma half_width_ratio: "int_truediv 800 400 = Inr 2"
  using int_truediv_exact [of 400 800 2] by simp

lemma half_width_scaled: "int_mul_float 300 2 = Inr (Finite 600)"
  using int_mul_float_exact [of 300 2] by simp

lemma half_width_resized:
  "resize_to_first_width nearest_filter
     [plain_image 800 600 (200, 0, 0), plain_image 400 300 (0, 200, 0)] =
   Inr [plain_image 800 600 (200, 0, 0),
        \<lparr>width = 800, height = 600,
         pixel = nearest_filter (plain_image 400 300 (0, 200, 0)) (800, 600)\<rparr>]"
  by (simp add: resize_to_first_width_def plain_image_def half_width_ratio half_width_scaled
        py_int_def resize_def)

lemma odd_height_round: "round_double (4 / 3) = Finite (6004799503160661 / 4503599627370496)"
  using round_double_fraction [of 4 3 0 52 6004799503160661] by (simp add: two_pow_def)

lemma odd_height_ratio: "int_truediv 800 600 = Inr (6004799503160661 / 4503599627370496)"
  by (simp add: int_truediv_def odd_height_round)

lemma odd_height_round_scaled:
  "round_double (2407924600767425061 / 4503599627370496) =
     Finite (4702977735873877 / 8796093022208)"
  using round_double_fraction [of 2407924600767425061 4503599627370496 9 43 4702977735873877]
  by (simp add: two_pow_def)

lemma odd_height_scaled:
  "int_mul_float 401 (6004799503160661 / 4503599627370496) =
     Inr (Finite (4702977735873877 / 8796093022208))"
  by (simp add: int_mul_float_def float_mul_def float_of_int_exact odd_height_round_scaled)

lemma odd_height_int: "py_int (Finite (4702977735873877 / 8796093022208)) = Inr 534"
proof -
  have "\<lfloor>of_int 4702977735873877 / of_int 8796093022208 :: rat\<rfloor> = 534"
    unfolding floor_divide_of_int_eq by simp
  then show ?thesis by (simp add: py_int_def)
qed

lemma odd_height_resized:
  "resize_to_first_width nearest_filter
     [plain_image 800 600 (200, 0, 0), plain_image 600 401 (0, 200, 0)] =
   Inr [plain_image 800 600 (200, 0, 0),
        \<lparr>width = 800, height = 534,
         pixel = nearest_filter (plain_image 600 401 (0, 200, 0)) (800, 534)\<rparr>]"
  by (simp add: resize_to_first_width_def plain_image_def odd_height_ratio odd_height_scaled
        odd_height_int resize_def)

lemma folder_three_later_files:
  "image_files folder_three_later = [''shot1.png'', ''shot2.PNG'', ''shot3.png'']"
  by code_simp

lemma folder_three_distinct:
  "distinct (os_listdir folder_three)" "distinct (os_listdir folder_three_later)"
  by (simp_all add: os_listdir_def folder_three_def folder_three_later_def)

lemma folder_three_same_files:
  "set (map (\<lambda>e. (fname e, content e)) folder_three_later) =
   set (map (\<lambda>e. (fname e, content e)) folder_three)"
  by (auto simp: folder_three_def folder_three_later_def)

section \<open>The claims\<close>



text \<open>
  C2: when the call ends normally, every image at a position \<open>p\<close> from 1 to \<open>N - 1\<close> of
  the sorted order contributes the crop \<open>(0, height - subtitle_height, target_width,
  height)\<close> of its normalised image: a band of the full width \<open>target_width\<close> and of
  height \<open>subtitle_height\<close>, which the saved canvas holds at column 0 and at the rows
  from \<open>first.height + subtitle_height * (p - 1)\<close> on.  Where the image is at least as
  high as the band, the band is its bottom \<open>subtitle_height\<close> rows.
\<close>

theorem subtitle_bands_pasted:
  assumes "\<not> isl (result (merge_screenshots_with_subtitles lanczos input_folder output_path
                            subtitle_ratio))"
  shows "\<exists>images resized_images subtitle_height new_image.
           open_images input_folder (image_files input_folder) = Inr images
         \<and> resize_to_first_width lanczos images = Inr resized_images
         \<and> subtitle_height_of resized_images subtitle_ratio = Inr subtitle_height
         \<and> written (merge_screenshots_with_subtitles lanczos input_folder output_path
                      subtitle_ratio) = [(output_path, new_image)]
         \<and> length resized_images = length (image_files input_folder)
         \<and> (\<forall>p. 1 \<le> p \<and> p < length resized_images \<longrightarrow>
               (\<exists>subtitle.
                  crop (resized_images ! p)
                    (0, int (height (resized_images ! p)) - subtitle_height,
                     int (width (images ! 0)), int (height (resized_images ! p))) = Inr subtitle
                \<and> width subtitle = width (images ! 0)
                \<and> int (height subtitle) = subtitle_height
                \<and> width (resized_images ! p) = width (images ! 0)
                \<and> (\<forall>x j. 0 \<le> x \<and> x < int (width (images ! 0))
                          \<and> 0 \<le> j \<and> j < subtitle_height \<longrightarrow>
                       pixel new_image x
                         (int (height (images ! 0)) + subtitle_height * (int p - 1) + j)
                         = pixel subtitle x j
                     \<and> (subtitle_height \<le> int (height (resized_images ! p)) \<longrightarrow>
                          pixel subtitle x j =
                            pixel (resized_images ! p) x
                              (int (height (resized_images ! p)) - subtitle_height + j)))))"
proof -
  from assms obtain images rs sh c where
    n: "2 \<le> length (image_files input_folder)"
    and im: "open_images input_folder (image_files input_folder) = Inr images"
    and rs: "resize_to_first_width lanczos images = Inr rs"
    and sh: "subtitle_height_of rs subtitle_ratio = Inr sh"
    and c: "compose_canvas rs (width (images ! 0)) sh = Inr c"
    and m: "merge_screenshots_with_subtitles lanczos input_folder output_path subtitle_ratio =
              \<lparr>result = Inr PyNone, written = [(output_path, c)]\<rparr>"
    by (rule merge_stages)
  have len: "length images = length (image_files input_folder)"
    using im by (rule open_images_length)
  with n have ne: "images \<noteq> []" by auto
  note shape = resize_to_first_width_shape(1,2) [OF rs ne]
  have rlen: "2 \<le> length rs" using shape(1) len n by simp
  have sh0: "0 \<le> sh" using c rlen by (rule compose_canvas_nonneg)
  have bands: "\<forall>p. 1 \<le> p \<and> p < length rs \<longrightarrow>
               (\<exists>subtitle.
                  crop (rs ! p) (0, int (height (rs ! p)) - sh,
                     int (width (images ! 0)), int (height (rs ! p))) = Inr subtitle
                \<and> width subtitle = width (images ! 0)
                \<and> int (height subtitle) = sh
                \<and> width (rs ! p) = width (images ! 0)
                \<and> (\<forall>x j. 0 \<le> x \<and> x < int (width (images ! 0)) \<and> 0 \<le> j \<and> j < sh \<longrightarrow>
                       pixel c x (int (height (images ! 0)) + sh * (int p - 1) + j)
                         = pixel subtitle x j
                     \<and> (sh \<le> int (height (rs ! p)) \<longrightarrow>
                          pixel subtitle x j =
                            pixel (rs ! p) x (int (height (rs ! p)) - sh + j))))"
  proof (intro allI impI)
    fix p assume p: "1 \<le> p \<and> p < length rs"
    then have pl: "p < length images" using shape(1) by simp
    have wp: "width (rs ! p) = width (images ! 0)"
      using rs ne pl by (rule resize_to_first_width_widths)
    from crop_band [OF sh0, of "rs ! p" "width (images ! 0)"] obtain band where
      band: "crop (rs ! p) (0, int (height (rs ! p)) - sh,
               int (width (images ! 0)), int (height (rs ! p))) = Inr band"
      by blast
    note bd = crop_band_Inr(2,3) [OF band]
    have px: "\<forall>x j. 0 \<le> x \<and> x < int (width (images ! 0)) \<and> 0 \<le> j \<and> j < sh \<longrightarrow>
                pixel c x (int (height (images ! 0)) + sh * (int p - 1) + j) = pixel band x j
              \<and> (sh \<le> int (height (rs ! p)) \<longrightarrow>
                   pixel band x j = pixel (rs ! p) x (int (height (rs ! p)) - sh + j))"
    proof (intro allI impI)
      fix x j assume xj: "0 \<le> x \<and> x < int (width (images ! 0)) \<and> 0 \<le> j \<and> j < sh"
      have "pixel c x (int (height (rs ! 0)) + sh * (int p - 1) + j) = pixel band x j"
        using c _ _ band by (rule compose_canvas_band) (use p xj in simp_all)
      then have one: "pixel c x (int (height (images ! 0)) + sh * (int p - 1) + j) = pixel band x j"
        by (simp add: shape(2))
      have two: "sh \<le> int (height (rs ! p)) \<longrightarrow>
                   pixel band x j = pixel (rs ! p) x (int (height (rs ! p)) - sh + j)"
        using xj wp by (simp add: crop_band_pixel [OF band] algebra_simps)
      from one two
      show "pixel c x (int (height (images ! 0)) + sh * (int p - 1) + j) = pixel band x j
              \<and> (sh \<le> int (height (rs ! p)) \<longrightarrow>
                   pixel band x j = pixel (rs ! p) x (int (height (rs ! p)) - sh + j))"
        by (rule conjI)
    qed
    from band bd wp px
    show "\<exists>subtitle.
            crop (rs ! p) (0, int (height (rs ! p)) - sh,
               int (width (images ! 0)), int (height (rs ! p))) = Inr subtitle
          \<and> width subtitle = width (images ! 0)
          \<and> int (height subtitle) = sh
          \<and> width (rs ! p) = width (images ! 0)
          \<and> (\<forall>x j. 0 \<le> x \<and> x < int (width (images ! 0)) \<and> 0 \<le> j \<and> j < sh \<longrightarrow>
                 pixel c x (int (height (images ! 0)) + sh * (int p - 1) + j)
                   = pixel subtitle x j
               \<and> (sh \<le> int (height (rs ! p)) \<longrightarrow>
                    pixel subtitle x j =
                      pixel (rs ! p) x (int (height (rs ! p)) - sh + j)))"
      by blast
  qed
  have wr: "written (merge_screenshots_with_subtitles lanczos input_folder output_path
                      subtitle_ratio) = [(output_path, c)]"
    by (simp add: m)
  have rl: "length rs = length (image_files input_folder)"
    using shape(1) len by simp
  from im rs sh wr rl bands show ?thesis by blast
qed


theorem subtitle_bands_pasted_witness:
  "\<not> isl (result (merge_screenshots_with_subtitles nearest_filter folder_three ''out.png''
                    (PyInt 5)))
   \<and> (\<exists>new_image.
         written (merge_screenshots_with_subtitles nearest_filter folder_three ''out.png''
                    (PyInt 5)) = [(''out.png'', new_image)]
       \<and> pixel new_image 3 600 = (0, 200, 0)
       \<and> pixel new_image 3 720 = (0, 0, 200))"
proof -
  from subtitle_bands_pasted [OF folder_three_ends_normally]
  obtain images rs sh c where
    im: "open_images folder_three (image_files folder_three) = Inr images"
    and rs: "resize_to_first_width nearest_filter images = Inr rs"
    and sh: "subtitle_height_of rs (PyInt 5) = Inr sh"
    and wr: "written (merge_screenshots_with_subtitles nearest_filter folder_three ''out.png''
                  (PyInt 5)) = [(''out.png'', c)]"
    and bands: "\<forall>p. 1 \<le> p \<and> p < length rs \<longrightarrow>
               (\<exists>subtitle.
                  crop (rs ! p) (0, int (height (rs ! p)) - sh,
                     int (width (images ! 0)), int (height (rs ! p))) = Inr subtitle
                \<and> width subtitle = width (images ! 0)
                \<and> int (height subtitle) = sh
                \<and> width (rs ! p) = width (images ! 0)
                \<and> (\<forall>x j. 0 \<le> x \<and> x < int (width (images ! 0)) \<and> 0 \<le> j \<and> j < sh \<longrightarrow>
                       pixel c x (int (height (images ! 0)) + sh * (int p - 1) + j)
                         = pixel subtitle x j
                     \<and> (sh \<le> int (height (rs ! p)) \<longrightarrow>
                          pixel subtitle x j =
                            pixel (rs ! p) x (int (height (rs ! p)) - sh + j))))"
    by blast
  from im have images: "images = [plain_image 800 600 (200, 0, 0),
      plain_image 800 500 (0, 200, 0), plain_image 800 550 (0, 0, 200)]"
    unfolding folder_three_images by simp
  from rs have rsv: "rs = [plain_image 800 600 (200, 0, 0),
      plain_image 800 500 (0, 200, 0), plain_image 800 550 (0, 0, 200)]"
    unfolding images folder_three_resized by simp
  from sh have shv: "sh = 120"
    unfolding rsv folder_three_height by simp
  have dims: "int (width (images ! 0)) = 800" "int (height (images ! 0)) = 600"
    "int (height (rs ! 1)) = 500" "int (height (rs ! 2)) = 550" "length rs = 3"
    unfolding images rsv by (simp_all add: plain_image_def)
  have in1: "1 \<le> (1::nat) \<and> 1 < length rs" and in2: "1 \<le> (2::nat) \<and> 2 < length rs"
    using dims(5) by simp_all
  from bands [rule_format, OF in1] obtain b1 :: image where
    b1: "\<forall>x j. 0 \<le> x \<and> x < int (width (images ! 0)) \<and> 0 \<le> j \<and> j < sh \<longrightarrow>
           pixel c x (int (height (images ! 0)) + sh * (int 1 - 1) + j) = pixel b1 x j
         \<and> (sh \<le> int (height (rs ! 1)) \<longrightarrow>
              pixel b1 x j = pixel (rs ! 1) x (int (height (rs ! 1)) - sh + j))"
    by blast
  have "pixel c 3 (int (height (images ! 0)) + sh * (int 1 - 1) + 0) = pixel b1 3 0
         \<and> (sh \<le> int (height (rs ! 1)) \<longrightarrow>
              pixel b1 3 0 = pixel (rs ! 1) 3 (int (height (rs ! 1)) - sh + 0))"
    by (rule b1 [rule_format]) (simp add: dims shv)
  then have "pixel c 3 600 = pixel (rs ! 1) 3 380"
    unfolding dims shv by simp
  then have p1: "pixel c 3 600 = (0, 200, 0)"
    unfolding rsv by (simp add: plain_image_def)
  from bands [rule_format, OF in2] obtain b2 :: image where
    b2: "\<forall>x j. 0 \<le> x \<and> x < int (width (images ! 0)) \<and> 0 \<le> j \<and> j < sh \<longrightarrow>
           pixel c x (int (height (images ! 0)) + sh * (int 2 - 1) + j) = pixel b2 x j
         \<and> (sh \<le> int (height (rs ! 2)) \<longrightarrow>
              pixel b2 x j = pixel (rs ! 2) x (int (height (rs ! 2)) - sh + j))"
    by blast
  have "pixel c 3 (int (height (images ! 0)) + sh * (int 2 - 1) + 0) = pixel b2 3 0
         \<and> (sh \<le> int (height (rs ! 2)) \<longrightarrow>
              pixel b2 3 0 = pixel (rs ! 2) 3 (int (height (rs ! 2)) - sh + 0))"
    by (rule b2 [rule_format]) (simp add: dims shv)
  then have "pixel c 3 720 = pixel (rs ! 2) 3 430"
    unfolding dims shv by simp
  then have p2: "pixel c 3 720 = (0, 0, 200)"
    unfolding rsv by (simp add: plain_image_def)
  from folder_three_ends_normally wr p1 p2 show ?thesis by blast
qed

text \<open>
  C3, as the code has it: an image after the first whose width differs from the first
  image's is rescaled to that width and to the height
  \<^verbatim>\<open>int(height * (target_width / width))\<close>: Python's float quotient, the float
  product, and \<^verbatim>\<open>int\<close>, which cuts the fraction off (the product is not
  negative, so this is its floor).  An image of 400 by 300 beside a first image 800 wide
  becomes 800 by 600.
\<close>

theorem rescaled_height_is_truncated:
  assumes "resize_to_first_width lanczos images = Inr resized_images"
    and "1 \<le> i" and "i < length images"
    and "width (images ! i) \<noteq> width (images ! 0)"
  shows "\<exists>ratio scaled.
           int_truediv (int (width (images ! 0))) (int (width (images ! i))) = Inr ratio
         \<and> int_mul_float (int (height (images ! i))) ratio = Inr (Finite scaled)
         \<and> 0 \<le> scaled
         \<and> py_int (Finite scaled) = Inr (int (height (resized_images ! i)))
         \<and> int (height (resized_images ! i)) = \<lfloor>scaled\<rfloor>
         \<and> width (resized_images ! i) = width (images ! 0)
         \<and> pixel (resized_images ! i) =
             lanczos (images ! i) (width (images ! 0), height (resized_images ! i))"
proof -
  from assms(3) have ne: "images \<noteq> []" by auto
  have one: "resized_image lanczos (width (images ! 0)) (images ! i) = Inr (resized_images ! i)"
    using assms(1) ne assms(2,3) by (rule resize_to_first_width_shape(3))
  from resized_image_other [OF one assms(4)] obtain ratio v where
    r: "int_truediv (int (width (images ! 0))) (int (width (images ! i))) = Inr ratio"
       "int_mul_float (int (height (images ! i))) ratio = Inr (Finite v)"
       "0 \<le> v"
       "width (resized_images ! i) = width (images ! 0)"
       "int (height (resized_images ! i)) = \<lfloor>v\<rfloor>"
       "pixel (resized_images ! i) = lanczos (images ! i) (width (images ! 0), nat \<lfloor>v\<rfloor>)"
    by blast
  from r(5) have "nat \<lfloor>v\<rfloor> = height (resized_images ! i)" by simp
  with r(6) have px: "pixel (resized_images ! i) =
             lanczos (images ! i) (width (images ! 0), height (resized_images ! i))"
    by simp
  have "py_int (Finite v) = Inr (int (height (resized_images ! i)))"
    using r(3,5) by (simp add: py_int_def)
  with r(1-5) px show ?thesis by blast
qed

theorem rescaled_height_is_truncated_witness:
  "resize_to_first_width nearest_filter
     [plain_image 800 600 (200, 0, 0), plain_image 400 300 (0, 200, 0)] =
   Inr [plain_image 800 600 (200, 0, 0),
        \<lparr>width = 800, height = 600,
         pixel = nearest_filter (plain_image 400 300 (0, 200, 0)) (800, 600)\<rparr>]
   \<and> width ([plain_image 800 600 (200, 0, 0), plain_image 400 300 (0, 200, 0)] ! 1)
       \<noteq> width ([plain_image 800 600 (200, 0, 0), plain_image 400 300 (0, 200, 0)] ! 0)
   \<and> int_truediv 800 400 = Inr 2
   \<and> int_mul_float 300 2 = Inr (Finite 600)
   \<and> py_int (Finite 600) = Inr 600"
proof -
  have i1: "1 \<le> (1::nat)" by simp
  have i2: "1 < length [plain_image 800 600 (200, 0, 0), plain_image 400 300 (0, 200, 0)]"
    by simp
  have w: "width ([plain_image 800 600 (200, 0, 0), plain_image 400 300 (0, 200, 0)] ! 1)
       \<noteq> width ([plain_image 800 600 (200, 0, 0), plain_image 400 300 (0, 200, 0)] ! 0)"
    by (simp add: plain_image_def)
  from rescaled_height_is_truncated [OF half_width_resized i1 i2 w]
  obtain ratio scaled where
    r: "int_truediv
          (int (width ([plain_image 800 600 (200, 0, 0), plain_image 400 300 (0, 200, 0)] ! 0)))
          (int (width ([plain_image 800 600 (200, 0, 0), plain_image 400 300 (0, 200, 0)] ! 1)))
          = Inr ratio"
       "int_mul_float
          (int (height ([plain_image 800 600 (200, 0, 0), plain_image 400 300 (0, 200, 0)] ! 1)))
          ratio = Inr (Finite scaled)"
       "py_int (Finite scaled) =
          Inr (int (height ([plain_image 800 600 (200, 0, 0),
                  \<lparr>width = 800, height = 600,
                   pixel = nearest_filter (plain_image 400 300 (0, 200, 0)) (800, 600)\<rparr>] ! 1)))"
    by blast
  have d: "int (width ([plain_image 800 600 (200, 0, 0), plain_image 400 300 (0, 200, 0)] ! 0)) = 800"
     "int (width ([plain_image 800 600 (200, 0, 0), plain_image 400 300 (0, 200, 0)] ! 1)) = 400"
     "int (height ([plain_image 800 600 (200, 0, 0), plain_image 400 300 (0, 200, 0)] ! 1)) = 300"
    by (simp_all add: plain_image_def)
  from r(1) have ratio: "ratio = 2" unfolding d half_width_ratio by simp
  from r(2) have scaled: "scaled = 600" unfolding d ratio half_width_scaled by simp
  from r(3) have "py_int (Finite 600) = Inr 600" unfolding scaled by simp
  with half_width_resized w half_width_ratio half_width_scaled show ?thesis by blast
qed

text \<open>
  C3, as the claim states it, fails for an image of 600 by 401 beside a first image 800
  wide: the code rescales to the height 534, while 401 * 800 / 600 = 534.67 rounded to
  the nearest integer is 535 (in exact and in float arithmetic).
\<close>

theorem rescaled_height_not_rounded:
  "resize_to_first_width nearest_filter
     [plain_image 800 600 (200, 0, 0), plain_image 600 401 (0, 200, 0)] =
   Inr [plain_image 800 600 (200, 0, 0),
        \<lparr>width = 800, height = 534,
         pixel = nearest_filter (plain_image 600 401 (0, 200, 0)) (800, 534)\<rparr>]
   \<and> round (401 * (800 / 600) :: rat) = 535
   \<and> round (4702977735873877 / 8796093022208 :: rat) = 535"
proof -
  have "round (401 * (800 / 600) :: rat) = 535"
    by (rule round_unique') simp
  moreover have "round (4702977735873877 / 8796093022208 :: rat) = 535"
    by (rule round_unique') simp
  ultimately show ?thesis using odd_height_resized by blast
qed

text \<open>
  C4: a folder with fewer than two names ending in \<^verbatim>\<open>.png\<close> (in any case) makes
  the call raise the ValueError of line 24, whatever the files hold and before any file
  is opened, and the call writes no file.
\<close>

theorem fewer_than_two_images_raises:
  assumes "length [f \<leftarrow> os_listdir input_folder. endswith (str_lower f) ''.png''] < 2"
  shows "merge_screenshots_with_subtitles lanczos input_folder output_path subtitle_ratio =
           \<lparr>result = Inl ValueError_two_png_required, written = []\<rparr>"
proof -
  from assms have "length (image_files input_folder) < 2"
    by (simp add: image_files_def)
  then show ?thesis by (rule merge_too_few)
qed

theorem fewer_than_two_images_raises_witness:
  "length [f \<leftarrow> os_listdir folder_one_png. endswith (str_lower f) ''.png''] < 2 \<and>
   merge_screenshots_with_subtitles nearest_filter folder_one_png ''out.png'' (PyInt 6) =
     \<lparr>result = Inl ValueError_two_png_required, written = []\<rparr>"
proof -
  have few: "length [f \<leftarrow> os_listdir folder_one_png. endswith (str_lower f) ''.png''] < 2"
    by code_simp
  from fewer_than_two_images_raises [OF few] few show ?thesis by blast
qed






text \<open>
  C7: when the call ends normally, the first image of the sorted order goes through the
  normalisation as it is (the same width, height and pixels); every later image whose
  width is already the first image's goes through as it is, too; and the saved canvas
  shows the first image from its origin over the image's full width and height.
\<close>

theorem first_image_kept:
  assumes "\<not> isl (result (merge_screenshots_with_subtitles lanczos input_folder output_path
                            subtitle_ratio))"
  shows "\<exists>images resized_images new_image.
           open_images input_folder (image_files input_folder) = Inr images
         \<and> resize_to_first_width lanczos images = Inr resized_images
         \<and> written (merge_screenshots_with_subtitles lanczos input_folder output_path
                      subtitle_ratio) = [(output_path, new_image)]
         \<and> resized_images ! 0 = images ! 0
         \<and> (\<forall>i. 1 \<le> i \<and> i < length images \<and> width (images ! i) = width (images ! 0) \<longrightarrow>
               resized_images ! i = images ! i)
         \<and> (\<forall>x y. 0 \<le> x \<and> x < int (width (images ! 0))
                   \<and> 0 \<le> y \<and> y < int (height (images ! 0)) \<longrightarrow>
               pixel new_image x y = pixel (images ! 0) x y)"
proof -
  from assms obtain images rs sh c where
    n: "2 \<le> length (image_files input_folder)"
    and im: "open_images input_folder (image_files input_folder) = Inr images"
    and rs: "resize_to_first_width lanczos images = Inr rs"
    and sh: "subtitle_height_of rs subtitle_ratio = Inr sh"
    and c: "compose_canvas rs (width (images ! 0)) sh = Inr c"
    and m: "merge_screenshots_with_subtitles lanczos input_folder output_path subtitle_ratio =
              \<lparr>result = Inr PyNone, written = [(output_path, c)]\<rparr>"
    by (rule merge_stages)
  have len: "length images = length (image_files input_folder)"
    using im by (rule open_images_length)
  with n have ne: "images \<noteq> []" by auto
  note shape = resize_to_first_width_shape [OF rs ne]
  have rlen: "2 \<le> length rs" using shape(1) len n by simp
  then have rne: "rs \<noteq> []" by auto
  have sh0: "0 \<le> sh" using c rlen by (rule compose_canvas_nonneg)
  have same: "\<forall>i. 1 \<le> i \<and> i < length images \<and> width (images ! i) = width (images ! 0) \<longrightarrow>
               rs ! i = images ! i"
  proof (intro allI impI)
    fix i assume i: "1 \<le> i \<and> i < length images \<and> width (images ! i) = width (images ! 0)"
    then have "resized_image lanczos (width (images ! 0)) (images ! i) = Inr (rs ! i)"
      by (intro shape(3)) simp_all
    with i show "rs ! i = images ! i" by (simp add: resized_image_same)
  qed
  have first: "\<forall>x y. 0 \<le> x \<and> x < int (width (images ! 0))
                   \<and> 0 \<le> y \<and> y < int (height (images ! 0)) \<longrightarrow>
               pixel c x y = pixel (images ! 0) x y"
  proof (intro allI impI)
    fix x y assume xy: "0 \<le> x \<and> x < int (width (images ! 0))
                   \<and> 0 \<le> y \<and> y < int (height (images ! 0))"
    have "pixel c x y = pixel (rs ! 0) x y"
      using c sh0 rne by (rule compose_canvas_first) (use xy shape(2) in simp_all)
    then show "pixel c x y = pixel (images ! 0) x y" by (simp add: shape(2))
  qed
  have wr: "written (merge_screenshots_with_subtitles lanczos input_folder output_path
                      subtitle_ratio) = [(output_path, c)]"
    by (simp add: m)
  from im rs wr shape(2) same first show ?thesis by blast
qed

theorem first_image_kept_witness:
  "\<not> isl (result (merge_screenshots_with_subtitles nearest_filter folder_three ''out.png''
                    (PyInt 5)))
   \<and> (\<exists>new_image.
         written (merge_screenshots_with_subtitles nearest_filter folder_three ''out.png''
                    (PyInt 5)) = [(''out.png'', new_image)]
       \<and> pixel new_image 0 0 = (200, 0, 0)
       \<and> pixel new_image 799 599 = (200, 0, 0))"
proof -
  from first_image_kept [OF folder_three_ends_normally]
  obtain images rs c where
    im: "open_images folder_three (image_files folder_three) = Inr images"
    and wr: "written (merge_screenshots_with_subtitles nearest_filter folder_three ''out.png''
                  (PyInt 5)) = [(''out.png'', c)]"
    and first: "\<forall>x y. 0 \<le> x \<and> x < int (width (images ! 0))
                   \<and> 0 \<le> y \<and> y < int (height (images ! 0)) \<longrightarrow>
               pixel c x y = pixel (images ! 0) x y"
    by blast
  from im have images: "images = [plain_image 800 600 (200, 0, 0),
      plain_image 800 500 (0, 200, 0), plain_image 800 550 (0, 0, 200)]"
    unfolding folder_three_images by simp
  have dims: "int (width (images ! 0)) = 800" "int (height (images ! 0)) = 600"
    unfolding images by (simp_all add: plain_image_def)
  have "pixel c 0 0 = pixel (images ! 0) 0 0"
    by (rule first [rule_format]) (simp add: dims)
  then have p1: "pixel c 0 0 = (200, 0, 0)"
    unfolding images by (simp add: plain_image_def)
  have "pixel c 799 599 = pixel (images ! 0) 799 599"
    by (rule first [rule_format]) (simp add: dims)
  then have p2: "pixel c 799 599 = (200, 0, 0)"
    unfolding images by (simp add: plain_image_def)
  from folder_three_ends_normally wr p1 p2 show ?thesis by blast
qed

text \<open>
  C8: two runs on the same files, with the same filter, output path and
  \<^verbatim>\<open>subtitle_ratio\<close>, end the same way and write the same canvas, also when the
  folder is listed in another order or its files carry other times in the second run.
\<close>

theorem merge_deterministic:
  assumes "distinct (os_listdir first_listing)" and "distinct (os_listdir second_listing)"
    and "set (map (\<lambda>e. (fname e, content e)) first_listing) =
         set (map (\<lambda>e. (fname e, content e)) second_listing)"
  shows "merge_screenshots_with_subtitles lanczos first_listing output_path subtitle_ratio =
         merge_screenshots_with_subtitles lanczos second_listing output_path subtitle_ratio"
  using assms by (rule merge_cong)

theorem merge_deterministic_witness:
  "distinct (os_listdir folder_three_later) \<and> distinct (os_listdir folder_three)
   \<and> set (map (\<lambda>e. (fname e, content e)) folder_three_later) =
       set (map (\<lambda>e. (fname e, content e)) folder_three)
   \<and> merge_screenshots_with_subtitles nearest_filter folder_three_later ''out.png'' (PyInt 5) =
       merge_screenshots_with_subtitles nearest_filter folder_three ''out.png'' (PyInt 5)
   \<and> \<not> isl (result (merge_screenshots_with_subtitles nearest_filter folder_three_later
                        ''out.png'' (PyInt 5)))"
proof -
  note m = merge_deterministic
             [OF folder_three_distinct(2) folder_three_distinct(1) folder_three_same_files,
              of nearest_filter "''out.png''" "PyInt 5"]
  with folder_three_ends_normally
  have "\<not> isl (result (merge_screenshots_with_subtitles nearest_filter folder_three_later
                        ''out.png'' (PyInt 5)))"
    by simp
  with m folder_three_distinct folder_three_same_files show ?thesis by blast
qed





end
